theory Spec2Isabelle
  imports Complex_Main
begin

section \<open>Strings and numbers as the component uses them\<close>

text \<open>
  The component is \<^verbatim>\<open>src/App.tsx\<close>. Strings are modelled as \<^typ>\<open>string\<close>. Case
  conversion changes the ASCII letters and leaves every other character alone: the code
  lower-cases a file name only to compare its last piece with \<^verbatim>\<open>txt\<close>, \<^verbatim>\<open>pdf\<close> and
  \<^verbatim>\<open>csv\<close>, and no character outside ASCII lower-cases to one of the letters of these
  words; it upper-cases base-36 digits only.
\<close>

definition upper_letters :: string where
  "upper_letters = ''ABCDEFGHIJKLMNOPQRSTUVWXYZ''"

definition lower_letters :: string where
  "lower_letters = ''abcdefghijklmnopqrstuvwxyz''"

definition digit_chars :: string where
  "digit_chars = ''0123456789''"

definition toLowerCase_char :: "char \<Rightarrow> char" where
  "toLowerCase_char c =
     (case map_of (zip upper_letters lower_letters) c of Some l \<Rightarrow> l | None \<Rightarrow> c)"

definition toLowerCase :: "string \<Rightarrow> string" where
  "toLowerCase s = map toLowerCase_char s"

definition toUpperCase_char :: "char \<Rightarrow> char" where
  "toUpperCase_char c =
     (case map_of (zip lower_letters upper_letters) c of Some u \<Rightarrow> u | None \<Rightarrow> c)"

definition toUpperCase :: "string \<Rightarrow> string" where
  "toUpperCase s = map toUpperCase_char s"

text \<open>
  \<^verbatim>\<open>s.split(sep)\<close> for a one-character separator: the pieces between the separators, so
  a string with \<open>n\<close> separators gives \<open>n + 1\<close> pieces and the empty string gives one empty
  piece.
\<close>

fun split_on :: "char \<Rightarrow> string \<Rightarrow> string list" where
  "split_on sep [] = [[]]"
| "split_on sep (c # cs) =
     (if c = sep then [] # split_on sep cs
      else (case split_on sep cs of
              [] \<Rightarrow> [[c]]
            | piece # pieces \<Rightarrow> (c # piece) # pieces))"

text \<open>\<^verbatim>\<open>Array.prototype.pop\<close>'s value: the last element, \<^verbatim>\<open>undefined\<close> on an empty array.\<close>

definition pop :: "'a list \<Rightarrow> 'a option" where
  "pop xs = (if xs = [] then None else Some (last xs))"

text \<open>\<^verbatim>\<open>s.substr(start, len)\<close> for non-negative arguments.\<close>

definition substr :: "nat \<Rightarrow> nat \<Rightarrow> string \<Rightarrow> string" where
  "substr start len s = take len (drop start s)"

text \<open>Decimal rendering of a non-negative integer, as template literals and \<^verbatim>\<open>toString()\<close> do.\<close>

fun string_of_nat :: "nat \<Rightarrow> string" where
  "string_of_nat n =
     (if n < 10 then [digit_chars ! n]
      else string_of_nat (n div 10) @ [digit_chars ! (n mod 10)])"

declare string_of_nat.simps [simp del]

section \<open>Data model\<close>

text \<open>
  The browser's \<^verbatim>\<open>File\<close> handle, as far as the component reads it; \<^verbatim>\<open>size\<close> is
  \<open>size_f\<close> here.
\<close>

record File =
  name :: string
  type :: string
  size_f :: nat

datatype status = Pending | Uploading | Success | Error

text \<open>
  \<^verbatim>\<open>interface UploadedFile\<close> (lines 4-10). The fields \<^verbatim>\<open>file\<close> and \<^verbatim>\<open>id\<close> are
  \<open>file_f\<close> and \<open>id_key\<close> here; the optional \<^verbatim>\<open>error\<close> is an option.
\<close>

record UploadedFile =
  file_f :: File
  id_key :: string
  status :: status
  progress :: nat
  error :: "string option"

section \<open>Validation (lines 17-23)\<close>

definition allowedTypes :: "string list" where
  "allowedTypes = [''text/plain'', ''application/pdf'', ''text/csv'', ''application/vnd.ms-excel'']"

definition allowedExtensions :: "string list" where
  "allowedExtensions = [''.txt'', ''.pdf'', ''.csv'']"

text \<open>
  \<^verbatim>\<open>'.' + file.name.split('.').pop()?.toLowerCase()\<close>. Were \<^verbatim>\<open>pop()\<close> to give
  \<^verbatim>\<open>undefined\<close>, the optional chain would give \<^verbatim>\<open>undefined\<close> and the concatenation the
  text \<^verbatim>\<open>.undefined\<close>.
\<close>

definition extension :: "File \<Rightarrow> string" where
  "extension f =
     ''.'' @ (case pop (split_on CHR ''.'' (name f)) of
                None \<Rightarrow> ''undefined''
              | Some piece \<Rightarrow> toLowerCase piece)"

definition validateFile :: "File \<Rightarrow> bool" where
  "validateFile f \<longleftrightarrow> type f \<in> set allowedTypes \<or> extension f \<in> set allowedExtensions"

section \<open>The queue and its state updaters\<close>

text \<open>
  Every change of the \<^verbatim>\<open>files\<close> state is a call \<^verbatim>\<open>setFiles(prev => ...)\<close> with one of five
  closures. They are named here; \<open>apply_updater\<close> is the closure's body.
\<close>

datatype updater =
    Append "UploadedFile list"
  | SetUploading string
  | SetSuccess string
  | SetError string string
  | Remove string

text \<open>What the three mapping closures do to one entry (lines 56-60, 77-81, 85-94).\<close>

fun updater_entry :: "updater \<Rightarrow> UploadedFile \<Rightarrow> UploadedFile" where
  "updater_entry (SetUploading i) f =
     (if id_key f = i then f\<lparr>status := Uploading, progress := 0\<rparr> else f)"
| "updater_entry (SetSuccess i) f =
     (if id_key f = i then f\<lparr>status := Success, progress := 100\<rparr> else f)"
| "updater_entry (SetError i msg) f =
     (if id_key f = i then f\<lparr>status := Error, progress := 0, error := Some msg\<rparr> else f)"
| "updater_entry (Append newFiles) f = f"
| "updater_entry (Remove i) f = f"

fun apply_updater :: "updater \<Rightarrow> UploadedFile list \<Rightarrow> UploadedFile list" where
  "apply_updater (Append newFiles) prev = prev @ newFiles"
| "apply_updater (Remove i) prev = filter (\<lambda>f. id_key f \<noteq> i) prev"
| "apply_updater u prev = map (updater_entry u) prev"

text \<open>React applies the queued updaters in the order of their \<^verbatim>\<open>setFiles\<close> calls.\<close>

definition flush :: "updater list \<Rightarrow> UploadedFile list \<Rightarrow> UploadedFile list" where
  "flush us prev = foldl (\<lambda>q u. apply_updater u q) prev us"

section \<open>Uploading one file (lines 47-96)\<close>

record FormData =
  data :: File
  filename :: string
  filesize :: string
  filetype :: string
  userId :: string

text \<open>A request that has been sent: the id its continuation will update, and its body.\<close>

record request =
  req_entry :: string
  req_body :: FormData

text \<open>
  The pseudo-random source: \<open>rnd k\<close> is the text of the \<open>k\<close>-th
  \<^verbatim>\<open>Math.random().toString(36)\<close> of the page, such as \<^verbatim>\<open>0.4fzyo82mvyr\<close>.
\<close>

type_synonym rng = "nat \<Rightarrow> string"

text \<open>
  The synchronous part of \<^verbatim>\<open>uploadFile\<close>, up to the \<^verbatim>\<open>await fetch\<close>: it builds the form
  data with the \<open>k\<close>-th random draw, queues the \<^verbatim>\<open>uploading\<close> updater and sends the request.
\<close>

definition uploadFile :: "rng \<Rightarrow> nat \<Rightarrow> UploadedFile \<Rightarrow> updater \<times> request" where
  "uploadFile rnd k uploadedFile =
     (let formData = \<lparr>data = file_f uploadedFile,
                      filename = name (file_f uploadedFile),
                      filesize = string_of_nat (size_f (file_f uploadedFile)),
                      filetype = type (file_f uploadedFile),
                      userId = ''USR'' @ toUpperCase (substr 2 9 (rnd k))\<rparr>
      in (SetUploading (id_key uploadedFile),
          \<lparr>req_entry = id_key uploadedFile, req_body = formData\<rparr>))"

text \<open>
  How the request ends. \<^verbatim>\<open>fetch\<close> rejects with a thrown value, or resolves with a status
  code and status text; reading the body then gives its text or throws.
\<close>

datatype thrown = ErrorObject string | NotAnError

datatype body_read = BodyText string | BodyThrows thrown

datatype outcome = Rejected thrown | Responded nat string body_read

text \<open>\<^verbatim>\<open>response.ok\<close>, which the Fetch standard defines as a status from 200 to 299.\<close>

definition response_ok :: "nat \<Rightarrow> bool" where
  "response_ok code \<longleftrightarrow> 200 \<le> code \<and> code \<le> 299"

text \<open>The rest of the \<^verbatim>\<open>try\<close> block: \<open>Inl\<close> is the value thrown into the \<^verbatim>\<open>catch\<close>.\<close>

definition uploadFile_try :: "outcome \<Rightarrow> thrown + unit" where
  "uploadFile_try oc =
     (case oc of
        Rejected t \<Rightarrow> Inl t
      | Responded code statusText body \<Rightarrow>
          if \<not> response_ok code
          then Inl (ErrorObject (''Upload failed: '' @ string_of_nat code @ '' '' @ statusText))
          else (case body of BodyThrows t \<Rightarrow> Inl t | BodyText responseText \<Rightarrow> Inr ()))"

text \<open>The updater queued once the request of the entry with id \<open>i\<close> has ended.\<close>

definition uploadFile_settled :: "string \<Rightarrow> outcome \<Rightarrow> updater" where
  "uploadFile_settled i oc =
     (case uploadFile_try oc of
        Inr u \<Rightarrow> SetSuccess i
      | Inl t \<Rightarrow> SetError i (case t of ErrorObject message \<Rightarrow> message
                                     | NotAnError \<Rightarrow> ''Upload failed''))"

section \<open>Admission, removal and retry (lines 98-150)\<close>

text \<open>The \<^verbatim>\<open>forEach\<close> of lines 101-111; \<open>k\<close> counts the random draws made so far.\<close>

fun handleFiles_loop :: "rng \<Rightarrow> nat \<Rightarrow> File list \<Rightarrow> UploadedFile list" where
  "handleFiles_loop rnd k [] = []"
| "handleFiles_loop rnd k (f # fileList) =
     (if validateFile f
      then \<lparr>file_f = f, id_key = substr 2 9 (rnd k), status = Pending, progress = 0,
            error = None\<rparr> # handleFiles_loop rnd (Suc k) fileList
      else handleFiles_loop rnd k fileList)"

text \<open>\<^verbatim>\<open>newFiles.forEach(uploadFile)\<close> of line 116.\<close>

fun uploadFile_each :: "rng \<Rightarrow> nat \<Rightarrow> UploadedFile list \<Rightarrow> (updater \<times> request) list" where
  "uploadFile_each rnd k [] = []"
| "uploadFile_each rnd k (uf # ufs) = uploadFile rnd k uf # uploadFile_each rnd (Suc k) ufs"

text \<open>
  \<^verbatim>\<open>handleFiles\<close>: the updaters it queues, the requests it sends and the number of random
  draws it makes.
\<close>

definition handleFiles :: "rng \<Rightarrow> nat \<Rightarrow> File list \<Rightarrow> updater list \<times> request list \<times> nat" where
  "handleFiles rnd k fileList =
     (let newFiles = handleFiles_loop rnd k fileList;
          started = uploadFile_each rnd (k + length newFiles) newFiles
      in (Append newFiles # map fst started, map snd started, 2 * length newFiles))"

definition removeFile :: "string \<Rightarrow> updater" where
  "removeFile i = Remove i"

definition retryUpload :: "rng \<Rightarrow> nat \<Rightarrow> UploadedFile \<Rightarrow> updater \<times> request" where
  "retryUpload rnd k uploadedFile = uploadFile rnd k uploadedFile"

section \<open>The page as a transition system\<close>

record app_state =
  files :: "UploadedFile list"
  rng_pos :: nat
  inflight :: "request list"

definition init :: app_state where
  "init = \<lparr>files = [], rng_pos = 0, inflight = []\<rparr>"

text \<open>
  What can happen to the page: a batch of files is dropped or picked; the remove button of an
  entry is pressed; the Retry button of the \<open>n\<close>-th listed entry is pressed, which the page
  renders only while that entry's status is \<^verbatim>\<open>error\<close> (lines 294-304); the \<open>k\<close>-th pending
  request ends.
\<close>

datatype event =
    HandleFiles "File list"
  | RemoveFile string
  | RetryUpload nat
  | Settle nat outcome

fun event_effects ::
  "rng \<Rightarrow> app_state \<Rightarrow> event \<Rightarrow> (updater list \<times> request list \<times> nat) option" where
  "event_effects rnd s (HandleFiles fileList) = Some (handleFiles rnd (rng_pos s) fileList)"
| "event_effects rnd s (RemoveFile i) = Some ([removeFile i], [], 0)"
| "event_effects rnd s (RetryUpload n) =
     (if n < length (files s) \<and> status (files s ! n) = Error
      then (case retryUpload rnd (rng_pos s) (files s ! n) of (u, r) \<Rightarrow> Some ([u], [r], 1))
      else None)"
| "event_effects rnd s (Settle k oc) =
     (if k < length (inflight s)
      then Some ([uploadFile_settled (req_entry (inflight s ! k)) oc], [], 0)
      else None)"

text \<open>The requests still pending after the event.\<close>

fun still_pending :: "event \<Rightarrow> request list \<Rightarrow> request list" where
  "still_pending (Settle k oc) rs = take k rs @ drop (Suc k) rs"
| "still_pending ev rs = rs"

definition step :: "rng \<Rightarrow> app_state \<Rightarrow> event \<Rightarrow> app_state option" where
  "step rnd s ev =
     (case event_effects rnd s ev of
        None \<Rightarrow> None
      | Some (us, rs, draws) \<Rightarrow>
          Some \<lparr>files = flush us (files s),
                rng_pos = rng_pos s + draws,
                inflight = still_pending ev (inflight s) @ rs\<rparr>)"

fun run :: "rng \<Rightarrow> app_state \<Rightarrow> event list \<Rightarrow> app_state option" where
  "run rnd s [] = Some s"
| "run rnd s (ev # evs) =
     (case step rnd s ev of None \<Rightarrow> None | Some s' \<Rightarrow> run rnd s' evs)"

section \<open>The upload summary (lines 225 and 324-333)\<close>

text \<open>
  JavaScript numbers are IEEE-754 doubles. A non-negative double is written here as a pair
  \<open>(m, k)\<close> that stands for \<open>m / 2 ^ k\<close>. \<open>to_double a b\<close> is the double nearest to the
  quotient \<open>a / b\<close> (for \<open>b > 0\<close> and a quotient below \<open>2 ^ 53\<close>): the quotient is scaled
  into the 53-bit range, or to the subnormal exponent 1074 if it is too small for that, and
  rounded to the nearest integer, ties to even.
\<close>

type_synonym double = "nat \<times> nat"

definition nearest_even :: "nat \<Rightarrow> nat \<Rightarrow> nat" where
  "nearest_even a b =
     (let q = a div b; r = a mod b
      in if 2 * r < b then q else if b < 2 * r then Suc q else if even q then q else Suc q)"

function binade :: "nat \<Rightarrow> nat \<Rightarrow> nat \<Rightarrow> nat" where
  "binade a b k =
     (if 1074 \<le> k \<or> 2 ^ 52 * b \<le> a * 2 ^ k then k else binade a b (Suc k))"
  by pat_completeness auto
termination
  by (relation "measure (\<lambda>(a, b, k). 1074 - k)") auto

declare binade.simps [simp del]

definition to_double :: "nat \<Rightarrow> nat \<Rightarrow> double" where
  "to_double a b = (let k = binade a b 0 in (nearest_even (a * 2 ^ k) b, k))"

definition double_of_nat :: "nat \<Rightarrow> double" where
  "double_of_nat n = (n, 0)"

definition double_div :: "double \<Rightarrow> double \<Rightarrow> double" where
  "double_div x y = to_double (fst x * 2 ^ snd y) (fst y * 2 ^ snd x)"

definition double_mul :: "double \<Rightarrow> double \<Rightarrow> double" where
  "double_mul x y = to_double (fst x * fst y) (2 ^ (snd x + snd y))"

text \<open>\<^verbatim>\<open>Math.round\<close>: the nearest integer, a tie going up.\<close>

definition Math_round :: "double \<Rightarrow> nat" where
  "Math_round x = (2 * fst x + 2 ^ snd x) div 2 ^ Suc (snd x)"

text \<open>The three figures of the summary; the block is rendered only for a non-empty queue.\<close>

definition summary_succeeded :: "UploadedFile list \<Rightarrow> nat" where
  "summary_succeeded fs = length (filter (\<lambda>f. status f = Success) fs)"

definition summary_total :: "UploadedFile list \<Rightarrow> nat" where
  "summary_total fs = length fs"

definition percentComplete :: "UploadedFile list \<Rightarrow> nat option" where
  "percentComplete fs =
     (if length fs > 0
      then Some (Math_round
                  (double_mul
                     (double_div (double_of_nat (length (filter (\<lambda>f. status f = Success) fs)))
                                 (double_of_nat (length fs)))
                     (double_of_nat 100)))
      else None)"

section \<open>Notions used to state the properties\<close>

text \<open>
  The text of a file name after its last dot: its longest suffix without a dot, which is the
  whole name when the name has no dot.
\<close>

definition after_last_dot :: "string \<Rightarrow> string" where
  "after_last_dot s = rev (takeWhile (\<lambda>c. c \<noteq> CHR ''.'') (rev s))"

text \<open>
  The ways to write \<^verbatim>\<open>txt\<close>, \<^verbatim>\<open>pdf\<close> and \<^verbatim>\<open>csv\<close> in upper and lower case, listed one by
  one: comparing without regard to case means belonging to these lists.
\<close>

definition spellings_txt :: "string list" where
  "spellings_txt =
     [''txt'', ''txT'', ''tXt'', ''tXT'', ''Txt'', ''TxT'', ''TXt'', ''TXT'']"

definition spellings_pdf :: "string list" where
  "spellings_pdf =
     [''pdf'', ''pdF'', ''pDf'', ''pDF'', ''Pdf'', ''PdF'', ''PDf'', ''PDF'']"

definition spellings_csv :: "string list" where
  "spellings_csv =
     [''csv'', ''csV'', ''cSv'', ''cSV'', ''Csv'', ''CsV'', ''CSv'', ''CSV'']"

definition extension_spellings :: "string set" where
  "extension_spellings = set (spellings_txt @ spellings_pdf @ spellings_csv)"

definition media_allow_set :: "string set" where
  "media_allow_set =
     {''text/plain'', ''application/pdf'', ''text/csv'', ''application/vnd.ms-excel''}"

text \<open>
  The admission rule as the specification words it, an extension being the text after the
  last dot of a name that has a dot: a name without a dot has no extension.
\<close>

definition admitted_as_stated :: "File \<Rightarrow> bool" where
  "admitted_as_stated f \<longleftrightarrow>
     type f \<in> media_allow_set \<or>
     (CHR ''.'' \<in> set (name f) \<and> after_last_dot (name f) \<in> extension_spellings)"

text \<open>The rule with the whole name standing for the extension of a name without a dot.\<close>

definition admitted_by_rule :: "File \<Rightarrow> bool" where
  "admitted_by_rule f \<longleftrightarrow>
     type f \<in> media_allow_set \<or> after_last_dot (name f) \<in> extension_spellings"

definition lower_alnum :: "char \<Rightarrow> bool" where
  "lower_alnum c \<longleftrightarrow> c \<in> set ''0123456789abcdefghijklmnopqrstuvwxyz''"

definition upper_alnum :: "char \<Rightarrow> bool" where
  "upper_alnum c \<longleftrightarrow> c \<in> set ''0123456789ABCDEFGHIJKLMNOPQRSTUVWXYZ''"

text \<open>The format the specification gives for \<^verbatim>\<open>userId\<close>: USR and nine lowercase alphanumerics.\<close>

definition userId_lowercase_format :: "string \<Rightarrow> bool" where
  "userId_lowercase_format u \<longleftrightarrow>
     take 3 u = ''USR'' \<and> length u = 12 \<and> list_all lower_alnum (drop 3 u)"

text \<open>
  The texts \<^verbatim>\<open>Math.random().toString(36)\<close> can give: \<^verbatim>\<open>0\<close>, or \<^verbatim>\<open>0.\<close> followed by
  base-36 digits.
\<close>

definition base36_text :: "string \<Rightarrow> bool" where
  "base36_text s \<longleftrightarrow>
     s = ''0'' \<or> (take 2 s = ''0.'' \<and> drop 2 s \<noteq> [] \<and> list_all lower_alnum (drop 2 s))"

text \<open>
  The queue in which the entries with id \<open>i\<close> have failed with the message \<open>msg\<close>, the
  other entries being as they were.
\<close>

definition marked_failed :: "string \<Rightarrow> string \<Rightarrow> UploadedFile list \<Rightarrow> UploadedFile list" where
  "marked_failed i msg q =
     map (\<lambda>f. if id_key f = i
              then \<lparr>file_f = file_f f, id_key = id_key f, status = Error, progress = 0,
                    error = Some msg\<rparr>
              else f) q"

text \<open>
  The percentage in the specification's words, \<^verbatim>\<open>round(succeeded / total * 100)\<close>, over
  the real numbers; \<open>round\<close> takes the nearest integer, a tie going up.
\<close>

definition exact_percent :: "nat \<Rightarrow> nat \<Rightarrow> nat" where
  "exact_percent s t = nat (round (real s / real t * 100))"

text \<open>The moves of the specification's per-entry state machine; staying put is allowed.\<close>

definition transition_ok :: "status \<Rightarrow> status \<Rightarrow> bool" where
  "transition_ok a b \<longleftrightarrow>
     a = b \<or> (a, b) \<in> {(Pending, Uploading), (Uploading, Success), (Uploading, Error),
                          (Error, Uploading)}"

definition queue_ids :: "app_state \<Rightarrow> string set" where
  "queue_ids s = set (map id_key (files s))"

text \<open>The ids in the queue together with the ids that pending requests will update.\<close>

definition known_ids :: "app_state \<Rightarrow> string set" where
  "known_ids s = set (map id_key (files s)) \<union> set (map req_entry (inflight s))"

text \<open>The ids an event draws from the random source.\<close>

fun new_ids :: "rng \<Rightarrow> app_state \<Rightarrow> event \<Rightarrow> string list" where
  "new_ids rnd s (HandleFiles fileList) = map id_key (handleFiles_loop rnd (rng_pos s) fileList)"
| "new_ids rnd s ev = []"

text \<open>
  Along a run, every batch draws ids that differ from one another and from the ids \<open>used s\<close>
  of the state \<open>s\<close> it is admitted in.
\<close>

fun fresh_draws :: "(app_state \<Rightarrow> string set) \<Rightarrow> rng \<Rightarrow> app_state \<Rightarrow> event list \<Rightarrow> bool" where
  "fresh_draws used rnd s [] = True"
| "fresh_draws used rnd s (ev # evs) =
     (distinct (new_ids rnd s ev) \<and> set (new_ids rnd s ev) \<inter> used s = {} \<and>
      (case step rnd s ev of None \<Rightarrow> True | Some s' \<Rightarrow> fresh_draws used rnd s' evs))"

text \<open>
  The invariant of collision-free runs: ids are unique in the queue and among the pending
  requests, and an entry with a pending request is uploading.
\<close>

definition consistent :: "app_state \<Rightarrow> bool" where
  "consistent s \<longleftrightarrow>
     distinct (map id_key (files s)) \<and> distinct (map req_entry (inflight s)) \<and>
     (\<forall>f \<in> set (files s). id_key f \<in> set (map req_entry (inflight s)) \<longrightarrow> status f = Uploading)"

section \<open>Sample inputs\<close>

definition report_pdf :: File where
  "report_pdf = \<lparr>name = ''report.pdf'', type = ''application/pdf'', size_f = 1234\<rparr>"

definition data_csv :: File where
  "data_csv = \<lparr>name = ''data.csv'', type = [], size_f = 10\<rparr>"

definition notes_txt :: File where
  "notes_txt = \<lparr>name = ''notes.TXT'', type = ''text/plain'', size_f = 0\<rparr>"

text \<open>A random source that repeats itself, and one whose draws all differ for a long time.\<close>

definition rnd_same :: rng where
  "rnd_same k = ''0.4fzyo82mvyr''"

definition rnd_count :: rng where
  "rnd_count k = ''0.'' @ string_of_nat k @ ''q7mz1x9ka''"

definition http_500 :: outcome where
  "http_500 = Responded 500 ''Internal Server Error'' (BodyText [])"

definition http_200 :: outcome where
  "http_200 = Responded 200 ''OK'' (BodyText ''done'')"

text \<open>A queue of \<open>a\<close> entries in success followed by \<open>b\<close> entries in error.\<close>

definition sample_entry :: "status \<Rightarrow> nat \<Rightarrow> UploadedFile" where
  "sample_entry st n =
     \<lparr>file_f = report_pdf, id_key = substr 2 9 (rnd_count n), status = st,
      progress = (if st = Success then 100 else 0),
      error = (if st = Error then Some ''Upload failed'' else None)\<rparr>"

definition sample_queue :: "nat \<Rightarrow> nat \<Rightarrow> UploadedFile list" where
  "sample_queue a b = map (sample_entry Success) [0..<a] @ map (sample_entry Error) [a..<a + b]"

section \<open>Validation\<close>

lemma split_on_not_Nil: "split_on sep s \<noteq> []"
  by (induction s) (auto split: list.splits)

lemma length_split_on: "length (split_on sep s) = Suc (length (filter (\<lambda>c. c = sep) s))"
  by (induction s) (auto split: list.splits)

lemma split_on_no_sep: "sep \<notin> set s \<Longrightarrow> split_on sep s = [s]"
  by (induction s) auto

lemma last_split_on: "last (split_on sep s) = rev (takeWhile (\<lambda>c. c \<noteq> sep) (rev s))"
proof (induction s)
  case Nil
  then show ?case by simp
next
  case (Cons c cs)
  show ?case
  proof (cases "sep \<in> set cs")
    case False
    then have "sep \<notin> set (c # cs) \<or> c = sep" by auto
    then show ?thesis
    proof
      assume ns: "sep \<notin> set (c # cs)"
      have "split_on sep (c # cs) = [c # cs]" using ns by (rule split_on_no_sep)
      moreover have "rev (takeWhile (\<lambda>c. c \<noteq> sep) (rev (c # cs))) = c # cs"
        using ns by (auto simp: takeWhile_append)
      ultimately show ?thesis by (simp only: last.simps refl if_True)
    next
      assume "c = sep"
      with False Cons show ?thesis
        by (simp add: split_on_not_Nil takeWhile_append split_on_no_sep)
    qed
  next
    case True
    then have len: "2 \<le> length (split_on sep cs)"
      by (simp add: length_split_on filter_empty_conv Suc_le_eq length_greater_0_conv[symmetric] del: length_greater_0_conv)
         (auto simp: filter_empty_conv)
    then obtain p q ps where sp: "split_on sep cs = p # q # ps"
      by (cases "split_on sep cs"; cases "tl (split_on sep cs)") auto
    from True have tw: "takeWhile (\<lambda>c. c \<noteq> sep) (rev cs @ [c]) = takeWhile (\<lambda>c. c \<noteq> sep) (rev cs)"
      by (auto simp: takeWhile_append)
    show ?thesis using Cons sp tw by (auto)
  qed
qed

lemma pop_split_on: "pop (split_on sep s) = Some (rev (takeWhile (\<lambda>c. c \<noteq> sep) (rev s)))"
  by (simp add: pop_def split_on_not_Nil last_split_on)

lemma extension_eq: "extension f = ''.'' @ toLowerCase (after_last_dot (name f))"
  by (simp add: extension_def pop_split_on after_last_dot_def)

lemma after_last_dot_dotless: "CHR ''.'' \<notin> set s \<Longrightarrow> after_last_dot s = s"
proof -
  assume "CHR ''.'' \<notin> set s"
  then have "takeWhile (\<lambda>c. c \<noteq> CHR ''.'') (rev s) = rev s"
    by (intro takeWhile_eq_all_conv[THEN iffD2]) auto
  then show ?thesis by (simp only: after_last_dot_def rev_rev_ident)
qed

section \<open>Admission\<close>

lemma handleFiles_loop_files:
  "map file_f (handleFiles_loop rnd k fileList) = filter validateFile fileList"
  by (induction fileList arbitrary: k) auto

lemma handleFiles_loop_fresh:
  "e \<in> set (handleFiles_loop rnd k fileList) \<Longrightarrow>
     status e = Pending \<and> progress e = 0 \<and> error e = None"
  by (induction fileList arbitrary: k) (auto split: if_splits)

lemma map_file_updater_entry: "file_f (updater_entry u f) = file_f f"
  by (cases u) auto

lemma map_id_updater_entry: "id_key (updater_entry u f) = id_key f"
  by (cases u) auto

lemma uploadFile_each_updaters:
  "map fst (uploadFile_each rnd k ufs) = map (\<lambda>uf. SetUploading (id_key uf)) ufs"
  by (induction ufs arbitrary: k) (auto simp: uploadFile_def)

lemma flush_Nil [simp]: "flush [] q = q"
  by (simp add: flush_def)

lemma flush_Cons [simp]: "flush (u # us) q = flush us (apply_updater u q)"
  by (simp add: flush_def)

lemma flush_SetUploading_files:
  "map file_f (flush (map (\<lambda>x. SetUploading (g x)) xs) q) = map file_f q"
  by (induction xs arbitrary: q) (auto simp: map_file_updater_entry o_def)

lemma handleFiles_updaters:
  "fst (handleFiles rnd k fileList) =
     Append (handleFiles_loop rnd k fileList) #
     map (\<lambda>uf. SetUploading (id_key uf)) (handleFiles_loop rnd k fileList)"
  by (simp add: handleFiles_def Let_def uploadFile_each_updaters)

section \<open>Updaters and absent ids\<close>

lemma updater_entry_other: "id_key f \<noteq> i \<Longrightarrow> updater_entry (uploadFile_settled i oc) f = f"
  by (simp add: uploadFile_settled_def split: sum.splits)

lemma uploadFile_settled_cases:
  "uploadFile_settled i oc = SetSuccess i \<or> (\<exists>msg. uploadFile_settled i oc = SetError i msg)"
  by (simp add: uploadFile_settled_def split: sum.splits)

lemma apply_settled:
  "apply_updater (uploadFile_settled i oc) q = map (updater_entry (uploadFile_settled i oc)) q"
  using uploadFile_settled_cases [of i oc] by auto

lemma apply_settled_absent:
  "i \<notin> set (map id_key q) \<Longrightarrow> apply_updater (uploadFile_settled i oc) q = q"
  unfolding apply_settled by (induction q) (auto simp: updater_entry_other)

lemma step_Settle:
  "step rnd s (Settle k oc) = Some s' \<Longrightarrow>
     k < length (inflight s) \<and>
     files s' = apply_updater (uploadFile_settled (req_entry (inflight s ! k)) oc) (files s) \<and>
     rng_pos s' = rng_pos s \<and>
     inflight s' = take k (inflight s) @ drop (Suc k) (inflight s)"
  by (auto simp: step_def split: if_splits)

text \<open>
  C8. For an id that is not in the queue, removal and the updater of a request that ends
  late each leave the queue as it is. After a removal the id is not in the queue, a late
  success or error update for it changes nothing, so the entry does not come back, and a
  second removal changes nothing. These updaters are total functions; the remove event is
  always enabled, and a request that ends after its entry was removed leaves the queue
  unchanged.
\<close>

theorem remove_and_late_update_absent_id:
  "(i \<notin> set (map id_key q) \<longrightarrow>
      apply_updater (removeFile i) q = q \<and> apply_updater (uploadFile_settled i oc) q = q) \<and>
   i \<notin> set (map id_key (apply_updater (removeFile i) q)) \<and>
   apply_updater (uploadFile_settled i oc) (apply_updater (removeFile i) q) =
     apply_updater (removeFile i) q \<and>
   apply_updater (removeFile i) (apply_updater (removeFile i) q) = apply_updater (removeFile i) q \<and>
   step rnd s (RemoveFile i) \<noteq> None \<and>
   (\<forall>s'. step rnd s (Settle k oc) = Some s' \<longrightarrow>
      req_entry (inflight s ! k) \<notin> set (map id_key (files s)) \<longrightarrow> files s' = files s)"
proof (intro conjI impI allI)
  assume a: "i \<notin> set (map id_key q)"
  then have "\<forall>f \<in> set q. id_key f \<noteq> i" by auto
  then show "apply_updater (removeFile i) q = q"
    by (simp add: removeFile_def)
  show "apply_updater (uploadFile_settled i oc) q = q"
    using a by (rule apply_settled_absent)
next
  show gone: "i \<notin> set (map id_key (apply_updater (removeFile i) q))"
    by (auto simp: removeFile_def)
  show "apply_updater (uploadFile_settled i oc) (apply_updater (removeFile i) q) =
     apply_updater (removeFile i) q"
    using gone by (rule apply_settled_absent)
  show "apply_updater (removeFile i) (apply_updater (removeFile i) q) = apply_updater (removeFile i) q"
    by (simp add: removeFile_def)
  show "step rnd s (RemoveFile i) \<noteq> None"
    by (simp add: step_def)
next
  fix s'
  assume "step rnd s (Settle k oc) = Some s'"
    and "req_entry (inflight s ! k) \<notin> set (map id_key (files s))"
  then show "files s' = files s"
    by (simp add: step_Settle apply_settled_absent)
qed

theorem remove_and_late_update_absent_id_witness:
  "''zzz'' \<notin> set (map id_key [\<lparr>file_f = \<lparr>name = ''a.txt'', type = ''text/plain'', size_f = 1\<rparr>,
       id_key = ''4fzyo82mv'', status = Uploading, progress = 0, error = None\<rparr>]) \<and>
   apply_updater (removeFile ''zzz'')
     [\<lparr>file_f = \<lparr>name = ''a.txt'', type = ''text/plain'', size_f = 1\<rparr>,
       id_key = ''4fzyo82mv'', status = Uploading, progress = 0, error = None\<rparr>] =
     [\<lparr>file_f = \<lparr>name = ''a.txt'', type = ''text/plain'', size_f = 1\<rparr>,
       id_key = ''4fzyo82mv'', status = Uploading, progress = 0, error = None\<rparr>] \<and>
   apply_updater (uploadFile_settled ''zzz'' (Rejected NotAnError))
     [\<lparr>file_f = \<lparr>name = ''a.txt'', type = ''text/plain'', size_f = 1\<rparr>,
       id_key = ''4fzyo82mv'', status = Uploading, progress = 0, error = None\<rparr>] =
     [\<lparr>file_f = \<lparr>name = ''a.txt'', type = ''text/plain'', size_f = 1\<rparr>,
       id_key = ''4fzyo82mv'', status = Uploading, progress = 0, error = None\<rparr>]"
  using remove_and_late_update_absent_id [of "''zzz''"
     "[\<lparr>file_f = \<lparr>name = ''a.txt'', type = ''text/plain'', size_f = 1\<rparr>,
       id_key = ''4fzyo82mv'', status = Uploading, progress = 0, error = None\<rparr>]"
     "Rejected NotAnError" "\<lambda>k. ''0.4fzyo82mvyr''" init 0]
  by simp

section \<open>Runs\<close>

lemma run_induct:
  assumes "run rnd s0 evs = Some s" and "P s0"
    and "\<And>s ev s'. P s \<Longrightarrow> step rnd s ev = Some s' \<Longrightarrow> P s'"
  shows "P s"
  using assms(1,2)
proof (induction evs arbitrary: s0)
  case Nil
  then show ?case by simp
next
  case (Cons ev evs)
  then show ?case
    by (auto split: option.splits intro: assms(3))
qed

lemma uploadFile_settled_not_Append [simp]:
  "uploadFile_settled i oc \<noteq> Append new" "Append new \<noteq> uploadFile_settled i oc"
  using uploadFile_settled_cases [of i oc] by auto

lemma event_effects_Append:
  "event_effects rnd s ev = Some (us, rs, d) \<Longrightarrow> Append new \<in> set us \<Longrightarrow>
     \<forall>e \<in> set new. status e = Pending \<and> progress e = 0 \<and> error e = None"
  by (cases ev)
     (auto simp: handleFiles_updaters handleFiles_def Let_def retryUpload_def uploadFile_def
       removeFile_def uploadFile_each_updaters
       dest: handleFiles_loop_fresh split: if_splits)

lemma step_files:
  "step rnd s ev = Some s' \<Longrightarrow>
     \<exists>us rs d. event_effects rnd s ev = Some (us, rs, d) \<and> files s' = flush us (files s)"
  by (auto simp: step_def split: option.splits)

section \<open>Progress\<close>

lemma apply_updater_progress:
  assumes "\<forall>f \<in> set q. progress f = 100 \<longleftrightarrow> status f = Success"
    and "\<And>new. u = Append new \<Longrightarrow> \<forall>e \<in> set new. status e = Pending \<and> progress e = 0"
  shows "\<forall>f \<in> set (apply_updater u q). progress f = 100 \<longleftrightarrow> status f = Success"
proof (cases u)
  case (Append new)
  with assms show ?thesis by auto
next
  case (Remove i)
  with assms(1) show ?thesis by auto
next
  case (SetUploading i)
  with assms(1) show ?thesis by auto
next
  case (SetSuccess i)
  with assms(1) show ?thesis by auto
next
  case (SetError i m)
  with assms(1) show ?thesis by auto
qed

lemma flush_progress:
  assumes "\<forall>f \<in> set q. progress f = 100 \<longleftrightarrow> status f = Success"
    and "\<And>new. Append new \<in> set us \<Longrightarrow> \<forall>e \<in> set new. status e = Pending \<and> progress e = 0"
  shows "\<forall>f \<in> set (flush us q). progress f = 100 \<longleftrightarrow> status f = Success"
  using assms
proof (induction us arbitrary: q)
  case Nil
  then show ?case by simp
next
  case (Cons u us)
  have "\<forall>f \<in> set (apply_updater u q). progress f = 100 \<longleftrightarrow> status f = Success"
    using Cons.prems by (intro apply_updater_progress) auto
  then have "\<forall>f \<in> set (flush us (apply_updater u q)). progress f = 100 \<longleftrightarrow> status f = Success"
    by (rule Cons.IH) (use Cons.prems(2) in auto)
  then show ?case by simp
qed

text \<open>
  C5. In every state that the page reaches from the empty queue, an entry has progress 100
  exactly when its status is success; and whenever an updater changes an entry's status to
  uploading or to error, the entry's progress is 0 afterwards.
\<close>

theorem progress_100_iff_success:
  assumes "run rnd init evs = Some s" and "f \<in> set (files s)"
  shows "(progress f = 100 \<longleftrightarrow> status f = Success) \<and>
    (\<forall>u g. status (updater_entry u g) \<in> {Uploading, Error} \<and>
            status (updater_entry u g) \<noteq> status g \<longrightarrow> progress (updater_entry u g) = 0)"
proof
  have "\<forall>f \<in> set (files s). progress f = 100 \<longleftrightarrow> status f = Success"
  proof (rule run_induct [OF assms(1)])
    show "\<forall>f \<in> set (files init). progress f = 100 \<longleftrightarrow> status f = Success"
      by (simp add: init_def)
  next
    fix s ev s'
    assume inv: "\<forall>f \<in> set (files s). progress f = 100 \<longleftrightarrow> status f = Success"
      and st: "step rnd s ev = Some s'"
    from st obtain us rs d where
      ev: "event_effects rnd s ev = Some (us, rs, d)" and fl: "files s' = flush us (files s)"
      by (auto dest: step_files)
    show "\<forall>f \<in> set (files s'). progress f = 100 \<longleftrightarrow> status f = Success"
      unfolding fl using inv event_effects_Append [OF ev] by (intro flush_progress) auto
  qed
  with assms(2) show "progress f = 100 \<longleftrightarrow> status f = Success" by blast
next
  show "\<forall>u g. status (updater_entry u g) \<in> {Uploading, Error} \<and>
            status (updater_entry u g) \<noteq> status g \<longrightarrow> progress (updater_entry u g) = 0"
  proof (intro allI impI)
    fix u g
    assume "status (updater_entry u g) \<in> {Uploading, Error} \<and>
            status (updater_entry u g) \<noteq> status g"
    then show "progress (updater_entry u g) = 0"
      by (cases u) (auto split: if_splits)
  qed
qed

theorem progress_100_iff_success_witness:
  "run rnd_same init [HandleFiles [report_pdf], Settle 0 http_200] =
     Some \<lparr>files = [\<lparr>file_f = report_pdf, id_key = ''4fzyo82mv'', status = Success,
                      progress = 100, error = None\<rparr>], rng_pos = 2, inflight = []\<rparr> \<and>
   progress \<lparr>file_f = report_pdf, id_key = ''4fzyo82mv'', status = Success,
             progress = 100, error = None\<rparr> = 100"
proof -
  have r: "run rnd_same init [HandleFiles [report_pdf], Settle 0 http_200] =
     Some \<lparr>files = [\<lparr>file_f = report_pdf, id_key = ''4fzyo82mv'', status = Success,
                      progress = 100, error = None\<rparr>], rng_pos = 2, inflight = []\<rparr>"
    by code_simp
  have m: "\<lparr>file_f = report_pdf, id_key = ''4fzyo82mv'', status = Success,
             progress = 100, error = None\<rparr> \<in> set (files \<lparr>files = [\<lparr>file_f = report_pdf, id_key = ''4fzyo82mv'', status = Success,
                      progress = 100, error = None\<rparr>], rng_pos = 2, inflight = []\<rparr>)"
    by simp
  from progress_100_iff_success [OF r m] r show ?thesis by simp
qed

section \<open>The request's userId\<close>

lemma toUpperCase_char_alnum: "lower_alnum c \<Longrightarrow> upper_alnum (toUpperCase_char c)"
  by (auto simp: lower_alnum_def upper_alnum_def toUpperCase_char_def digit_chars_def
      lower_letters_def upper_letters_def)

lemma toUpperCase_alnum: "list_all lower_alnum s \<Longrightarrow> list_all upper_alnum (toUpperCase s)"
  by (induction s) (auto simp: toUpperCase_def toUpperCase_char_alnum)

lemma base36_text_digits: "base36_text s \<Longrightarrow> list_all lower_alnum (substr 2 9 s)"
proof -
  assume "base36_text s"
  then have "list_all lower_alnum (drop 2 s)"
    by (auto simp: base36_text_def)
  then show ?thesis
    unfolding substr_def list_all_iff by (auto dest: in_set_takeD)
qed

lemma uploadFile_each_nth:
  "j < length ufs \<Longrightarrow> uploadFile_each rnd k ufs ! j = uploadFile rnd (k + j) (ufs ! j)"
proof (induction ufs arbitrary: k j)
  case Nil
  then show ?case by simp
next
  case (Cons uf ufs)
  then show ?case by (cases j) auto
qed

lemma step_RetryUpload:
  "step rnd s (RetryUpload n) = Some s' \<Longrightarrow>
     n < length (files s) \<and> status (files s ! n) = Error \<and>
     files s' = apply_updater (SetUploading (id_key (files s ! n))) (files s) \<and>
     inflight s' = inflight s @ [snd (uploadFile rnd (rng_pos s) (files s ! n))] \<and>
     rng_pos s' = Suc (rng_pos s)"
  by (auto simp: step_def retryUpload_def uploadFile_def Let_def split: if_splits)

theorem uploadFile_userId_not_lowercase:
  "\<not> userId_lowercase_format (userId (req_body (snd (uploadFile rnd_same 0
     \<lparr>file_f = report_pdf, id_key = ''4fzyo82mv'', status = Pending, progress = 0,
      error = None\<rparr>))))"
  by (simp add: userId_lowercase_format_def uploadFile_def rnd_same_def substr_def
      toUpperCase_def toUpperCase_char_def lower_letters_def upper_letters_def
      lower_alnum_def digit_chars_def)

section \<open>Uniqueness of ids\<close>

lemma ids_apply_updater_mapping:
  "(\<And>new. u \<noteq> Append new) \<Longrightarrow> (\<And>i. u \<noteq> Remove i) \<Longrightarrow>
     map id_key (apply_updater u q) = map id_key q"
  by (cases u) (auto simp: map_id_updater_entry)

lemma ids_flush_SetUploading:
  "map id_key (flush (map (\<lambda>x. SetUploading (g x)) xs) q) = map id_key q"
  by (induction xs arbitrary: q) (auto simp: map_id_updater_entry o_def)

lemma ids_apply_settled:
  "map id_key (apply_updater (uploadFile_settled i oc) q) = map id_key q"
  unfolding apply_settled by (simp add: map_id_updater_entry)

lemma step_HandleFiles:
  "step rnd s (HandleFiles fileList) = Some s' \<Longrightarrow>
     files s' = flush (map (\<lambda>uf. SetUploading (id_key uf)) (handleFiles_loop rnd (rng_pos s) fileList))
                  (files s @ handleFiles_loop rnd (rng_pos s) fileList) \<and>
     inflight s' = inflight s @
        map snd (uploadFile_each rnd (rng_pos s + length (handleFiles_loop rnd (rng_pos s) fileList))
                   (handleFiles_loop rnd (rng_pos s) fileList))"
  by (auto simp: step_def handleFiles_def Let_def uploadFile_each_updaters)

lemma step_RemoveFile:
  "step rnd s (RemoveFile i) = Some s' \<Longrightarrow>
     files s' = filter (\<lambda>f. id_key f \<noteq> i) (files s) \<and> inflight s' = inflight s"
  by (auto simp: step_def removeFile_def)

lemma step_distinct_ids:
  assumes "step rnd s ev = Some s'" and "distinct (map id_key (files s))"
    and "distinct (new_ids rnd s ev)" and "set (new_ids rnd s ev) \<inter> queue_ids s = {}"
  shows "distinct (map id_key (files s'))"
proof (cases ev)
  case (HandleFiles fileList)
  with assms(1) have "map id_key (files s') = map id_key (files s) @ new_ids rnd s ev"
    by (auto dest!: step_HandleFiles simp: ids_flush_SetUploading)
  moreover have "set (map id_key (files s)) \<inter> set (new_ids rnd s ev) = {}"
    using assms(4) unfolding queue_ids_def by blast
  ultimately show ?thesis
    using assms(2,3) by (simp only: distinct_append)
next
  case (RemoveFile i)
  with assms show ?thesis
    by (auto dest!: step_RemoveFile simp: distinct_map_filter)
next
  case (RetryUpload n)
  with assms(1) have "map id_key (files s') = map id_key (files s)"
    by (auto dest!: step_RetryUpload simp: ids_apply_updater_mapping simp del: apply_updater.simps)
  with assms(2) show ?thesis by simp
next
  case (Settle k oc)
  with assms(1) have "map id_key (files s') = map id_key (files s)"
    by (auto dest!: step_Settle simp: ids_apply_settled)
  with assms(2) show ?thesis by simp
qed

lemma run_distinct_ids:
  "run rnd s0 evs = Some s \<Longrightarrow> fresh_draws queue_ids rnd s0 evs \<Longrightarrow>
     distinct (map id_key (files s0)) \<Longrightarrow> distinct (map id_key (files s))"
proof (induction evs arbitrary: s0)
  case Nil
  then show ?case by simp
next
  case (Cons ev evs)
  from Cons.prems(1) obtain s1 where s1: "step rnd s0 ev = Some s1" "run rnd s1 evs = Some s"
    by (auto split: option.splits)
  with Cons.prems have "distinct (map id_key (files s1))" "fresh_draws queue_ids rnd s1 evs"
    by (auto intro: step_distinct_ids)
  with s1 show ?case by (auto intro: Cons.IH)
qed

text \<open>
  C9, as the code has it. Along a run from the empty queue in which every admitted batch
  draws ids that differ from one another and from the ids then in the queue, the ids in the
  queue are pairwise different.
\<close>

theorem ids_unique_if_draws_fresh:
  assumes "run rnd init evs = Some s" and "fresh_draws queue_ids rnd init evs"
  shows "distinct (map id_key (files s))"
  using assms by (rule run_distinct_ids) (simp add: init_def)

theorem ids_collide_when_draws_repeat:
  "map_option (map id_key \<circ> files) (run rnd_same init [HandleFiles [report_pdf, data_csv]]) =
     Some [''4fzyo82mv'', ''4fzyo82mv'']"
  by code_simp

theorem ids_unique_if_draws_fresh_witness:
  "fresh_draws queue_ids rnd_count init
     [HandleFiles [report_pdf, data_csv], RemoveFile ''0q7mz1x9k'', HandleFiles [notes_txt]] \<and>
   map_option (map id_key \<circ> files)
     (run rnd_count init
        [HandleFiles [report_pdf, data_csv], RemoveFile ''0q7mz1x9k'', HandleFiles [notes_txt]]) =
     Some [''1q7mz1x9k'', ''4q7mz1x9k''] \<and>
   distinct [''1q7mz1x9k'', ''4q7mz1x9k'']"
proof -
  let ?evs = "[HandleFiles [report_pdf, data_csv], RemoveFile ''0q7mz1x9k'', HandleFiles [notes_txt]]"
  have r: "run rnd_count init ?evs = Some (the (run rnd_count init ?evs))"
    by code_simp
  have f: "fresh_draws queue_ids rnd_count init ?evs"
    by code_simp
  have i: "map id_key (files (the (run rnd_count init ?evs))) = [''1q7mz1x9k'', ''4q7mz1x9k'']"
    by code_simp
  from ids_unique_if_draws_fresh [OF r f] r f i show ?thesis
    by (metis comp_apply option.simps(9))
qed

section \<open>Collision-free runs\<close>

lemma flush_SetUploading:
  "flush (map (\<lambda>x. SetUploading (g x)) xs) q =
     map (\<lambda>f. if id_key f \<in> g ` set xs then f\<lparr>status := Uploading, progress := 0\<rparr> else f) q"
proof (induction xs arbitrary: q)
  case Nil
  then show ?case by simp
next
  case (Cons x xs)
  show ?case
    by (simp add: Cons.IH)
qed

lemma uploadFile_each_requests:
  "map (req_entry \<circ> snd) (uploadFile_each rnd k ufs) = map id_key ufs"
  by (induction ufs arbitrary: k) (auto simp: uploadFile_def)

lemma nth_not_in_rest:
  assumes "distinct (map g xs)" and "k < length xs"
  shows "g (xs ! k) \<notin> set (map g (take k xs @ drop (Suc k) xs))"
proof -
  have "xs = take k xs @ xs ! k # drop (Suc k) xs"
    using assms(2) by (rule id_take_nth_drop)
  then have "distinct (map g (take k xs @ xs ! k # drop (Suc k) xs))"
    using assms(1) by simp
  then show ?thesis by auto
qed

lemma distinct_without_nth:
  assumes "distinct (map g xs)"
  shows "distinct (map g (take k xs @ drop (Suc k) xs))"
proof (cases "k < length xs")
  case True
  then have "xs = take k xs @ xs ! k # drop (Suc k) xs"
    by (rule id_take_nth_drop)
  then have "distinct (map g (take k xs @ xs ! k # drop (Suc k) xs))"
    using assms by simp
  then show ?thesis by auto
next
  case False
  with assms show ?thesis by simp
qed

lemma nth_not_in_take:
  assumes "distinct xs" and "j < length xs"
  shows "xs ! j \<notin> set (take j xs)"
proof
  assume "xs ! j \<in> set (take j xs)"
  then obtain i where "i < length (take j xs)" "take j xs ! i = xs ! j"
    by (auto simp: in_set_conv_nth)
  then have "i < j" "xs ! i = xs ! j" by auto
  with assms show False by (auto simp: nth_eq_iff_index_eq)
qed

lemma fresh_draws_last:
  "run rnd s0 evs = Some s \<Longrightarrow> fresh_draws used rnd s0 (evs @ [ev]) \<Longrightarrow>
     fresh_draws used rnd s0 evs \<and> distinct (new_ids rnd s ev) \<and>
     set (new_ids rnd s ev) \<inter> used s = {}"
  by (induction evs arbitrary: s0) (auto split: option.splits)

lemma consistent_HandleFiles:
  assumes c: "consistent s" and st: "step rnd s (HandleFiles fileList) = Some s'"
    and d: "distinct (new_ids rnd s (HandleFiles fileList))"
    and fr: "set (new_ids rnd s (HandleFiles fileList)) \<inter> known_ids s = {}"
  shows "consistent s'"
proof -
  define new where "new = handleFiles_loop rnd (rng_pos s) fileList"
  define h :: "UploadedFile \<Rightarrow> UploadedFile" where "h = (\<lambda>f. if id_key f \<in> id_key ` set new
                           then f\<lparr>status := Uploading, progress := 0\<rparr> else f)"
  have ids_h: "id_key (h f) = id_key f" for f by (simp add: h_def)
  have fs: "files s' = map h (files s @ new)"
    using step_HandleFiles [OF st] by (simp add: flush_SetUploading new_def h_def)
  have inf: "map req_entry (inflight s') = map req_entry (inflight s) @ map id_key new"
    using step_HandleFiles [OF st] by (simp add: uploadFile_each_requests new_def)
  have dn: "distinct (map id_key new)" using d by (simp add: new_def)
  have disj1: "set (map id_key (files s)) \<inter> set (map id_key new) = {}"
    and disj2: "set (map req_entry (inflight s)) \<inter> set (map id_key new) = {}"
    using fr unfolding known_ids_def new_def by auto
  have "map id_key (files s') = map id_key (files s) @ map id_key new"
    by (simp add: fs ids_h o_def)
  then have 1: "distinct (map id_key (files s'))"
    using c dn disj1 unfolding consistent_def by (simp only: distinct_append simp_thms)
  have 2: "distinct (map req_entry (inflight s'))"
    using c dn disj2 unfolding consistent_def by (simp only: inf distinct_append simp_thms)
  have 3: "status f' = Uploading"
    if "f' \<in> set (files s')" "id_key f' \<in> set (map req_entry (inflight s'))" for f'
  proof -
    from that(1) obtain f0 where f0: "f0 \<in> set (files s @ new)" "f' = h f0"
      by (auto simp: fs)
    show ?thesis
    proof (cases "id_key f0 \<in> id_key ` set new")
      case True
      then show ?thesis by (simp add: f0 h_def)
    next
      case False
      with f0 have "f' = f0" "f0 \<in> set (files s)" by (auto simp: h_def)
      moreover from that(2) False have "id_key f0 \<in> set (map req_entry (inflight s))"
        by (auto simp: inf f0 ids_h)
      ultimately show ?thesis using c by (auto simp: consistent_def)
    qed
  qed
  from 1 2 3 show ?thesis by (auto simp: consistent_def)
qed

lemma consistent_RemoveFile:
  assumes "consistent s" and "step rnd s (RemoveFile i) = Some s'"
  shows "consistent s'"
  using assms by (auto dest!: step_RemoveFile simp: consistent_def distinct_map_filter)

lemma consistent_RetryUpload:
  assumes c: "consistent s" and st: "step rnd s (RetryUpload n) = Some s'"
  shows "consistent s'"
proof -
  define x where "x = id_key (files s ! n)"
  note r = step_RetryUpload [OF st]
  have mem: "files s ! n \<in> set (files s)" using r by simp
  have fs: "files s' = map (updater_entry (SetUploading x)) (files s)"
    using r by (simp add: x_def)
  have inf: "map req_entry (inflight s') = map req_entry (inflight s) @ [x]"
    using r by (simp add: x_def uploadFile_def)
  have "x \<notin> set (map req_entry (inflight s))"
  proof
    assume "x \<in> set (map req_entry (inflight s))"
    with c mem have "status (files s ! n) = Uploading"
      by (auto simp: consistent_def x_def)
    with r show False by simp
  qed
  then have 2: "distinct (map req_entry (inflight s'))"
    using c by (simp add: inf consistent_def)
  have 1: "distinct (map id_key (files s'))"
    using c by (simp add: fs consistent_def map_id_updater_entry o_def del: updater_entry.simps)
  have 3: "status f' = Uploading"
    if "f' \<in> set (files s')" "id_key f' \<in> set (map req_entry (inflight s'))" for f'
  proof -
    from that(1) obtain f0 where f0: "f0 \<in> set (files s)" "f' = updater_entry (SetUploading x) f0"
      by (auto simp: fs)
    show ?thesis
    proof (cases "id_key f0 = x")
      case True
      then show ?thesis by (simp add: f0)
    next
      case False
      with f0 that(2) have "f' = f0" "id_key f0 \<in> set (map req_entry (inflight s))"
        by (auto simp: inf)
      with f0(1) c show ?thesis by (auto simp: consistent_def)
    qed
  qed
  from 1 2 3 show ?thesis by (auto simp: consistent_def)
qed

lemma consistent_Settle:
  assumes c: "consistent s" and st: "step rnd s (Settle k oc) = Some s'"
  shows "consistent s'"
proof -
  define x where "x = req_entry (inflight s ! k)"
  note r = step_Settle [OF st]
  have fs: "files s' = map (updater_entry (uploadFile_settled x oc)) (files s)"
    using r by (simp add: x_def apply_settled)
  have inf: "inflight s' = take k (inflight s) @ drop (Suc k) (inflight s)"
    using r by simp
  have dq: "distinct (map req_entry (inflight s))" using c by (simp add: consistent_def)
  have 1: "distinct (map id_key (files s'))"
    using c r by (simp add: ids_apply_settled consistent_def)
  have 2: "distinct (map req_entry (inflight s'))"
    unfolding inf using dq by (rule distinct_without_nth)
  have nx: "x \<notin> set (map req_entry (inflight s'))"
    unfolding inf x_def using dq r by (intro nth_not_in_rest) auto
  have sub: "set (inflight s') \<subseteq> set (inflight s)"
    unfolding inf by (auto dest: in_set_takeD in_set_dropD)
  have 3: "status f' = Uploading"
    if "f' \<in> set (files s')" "id_key f' \<in> set (map req_entry (inflight s'))" for f'
  proof -
    from that(1) obtain f0 where f0: "f0 \<in> set (files s)" "f' = updater_entry (uploadFile_settled x oc) f0"
      by (auto simp: fs)
    have "id_key f' = id_key f0" by (simp add: f0 map_id_updater_entry)
    with that(2) nx have "id_key f0 \<noteq> x" by auto
    then have "f' = f0" by (simp add: f0 updater_entry_other)
    moreover have "id_key f0 \<in> set (map req_entry (inflight s))"
      using that(2) sub \<open>id_key f' = id_key f0\<close> by auto
    ultimately show ?thesis using c f0(1) by (auto simp: consistent_def)
  qed
  from 1 2 3 show ?thesis by (auto simp: consistent_def)
qed

lemma consistent_step:
  assumes "consistent s" and "step rnd s ev = Some s'"
    and "distinct (new_ids rnd s ev)" and "set (new_ids rnd s ev) \<inter> known_ids s = {}"
  shows "consistent s'"
proof (cases ev)
  case (HandleFiles fileList)
  show ?thesis
    using assms unfolding HandleFiles by (rule consistent_HandleFiles)
next
  case (RemoveFile i)
  with assms show ?thesis by (auto intro: consistent_RemoveFile)
next
  case (RetryUpload n)
  with assms show ?thesis by (auto intro: consistent_RetryUpload)
next
  case (Settle k oc)
  with assms show ?thesis by (auto intro: consistent_Settle)
qed

lemma run_consistent:
  "run rnd s0 evs = Some s \<Longrightarrow> fresh_draws known_ids rnd s0 evs \<Longrightarrow> consistent s0 \<Longrightarrow>
     consistent s"
proof (induction evs arbitrary: s0)
  case Nil
  then show ?case by simp
next
  case (Cons ev evs)
  from Cons.prems(1) obtain s1 where s1: "step rnd s0 ev = Some s1" "run rnd s1 evs = Some s"
    by (auto split: option.splits)
  with Cons.prems have "consistent s1" "fresh_draws known_ids rnd s1 evs"
    by (auto intro: consistent_step)
  with s1 show ?case by (auto intro: Cons.IH)
qed

lemma consistent_init: "consistent init"
  by (simp add: consistent_def init_def)

lemma transition_ok_refl [simp]: "transition_ok a a"
  by (simp add: transition_ok_def)

lemma event_transitions:
  assumes c: "consistent s" and ev: "event_effects rnd s ev = Some (us, rs, d)"
    and dn: "distinct (new_ids rnd s ev)" and fr: "set (new_ids rnd s ev) \<inter> known_ids s = {}"
    and n: "n < length us" and f: "f \<in> set (flush (take n us) (files s))"
  shows "transition_ok (status f) (status (updater_entry (us ! n) f))"
proof (cases ev)
  case (RemoveFile i)
  with ev n show ?thesis by (auto simp: removeFile_def)
next
  case (Settle k oc)
  define x where "x = req_entry (inflight s ! k)"
  from ev Settle have k: "k < length (inflight s)" and us: "us = [uploadFile_settled x oc]"
    by (auto simp: x_def split: if_splits)
  with n f have n0: "n = 0" and fm: "f \<in> set (files s)" by auto
  show ?thesis
  proof (cases "id_key f = x")
    case False
    then show ?thesis by (simp add: us n0 updater_entry_other)
  next
    case True
    with k have "id_key f \<in> set (map req_entry (inflight s))"
      by (auto simp: x_def)
    with c fm have "status f = Uploading" by (auto simp: consistent_def)
    then show ?thesis
      using uploadFile_settled_cases [of x oc] True
      by (auto simp: us n0 transition_ok_def)
  qed
next
  case (RetryUpload m)
  define x where "x = id_key (files s ! m)"
  from ev RetryUpload have m: "m < length (files s)" "status (files s ! m) = Error"
    and us: "us = [SetUploading x]"
    by (auto simp: x_def retryUpload_def uploadFile_def split: if_splits)
  with n f have n0: "n = 0" and fm: "f \<in> set (files s)" by auto
  show ?thesis
  proof (cases "id_key f = x")
    case False
    then show ?thesis by (simp add: us n0)
  next
    case True
    from c have "inj_on id_key (set (files s))"
      by (simp add: consistent_def distinct_map)
    with True fm m(1) have "f = files s ! m"
      by (auto simp: x_def dest: inj_onD)
    with m(2) True show ?thesis by (simp add: us n0 transition_ok_def)
  qed
next
  case (HandleFiles fileList)
  define new where "new = handleFiles_loop rnd (rng_pos s) fileList"
  from ev HandleFiles have "us = fst (handleFiles rnd (rng_pos s) fileList)"
    by simp
  then have us: "us = Append new # map (\<lambda>uf. SetUploading (id_key uf)) new"
    by (simp only: handleFiles_updaters new_def)
  have dnew: "distinct (map id_key new)" using dn HandleFiles by (simp add: new_def)
  have disj: "set (map id_key (files s)) \<inter> set (map id_key new) = {}"
    using fr HandleFiles unfolding known_ids_def new_def by auto
  show ?thesis
  proof (cases n)
    case 0
    then show ?thesis by (simp add: us)
  next
    case (Suc j)
    with n have j: "j < length new" by (simp add: us)
    then have un: "us ! n = SetUploading (id_key (new ! j))" by (simp add: us Suc)
    have "take n us = Append new # map (\<lambda>uf. SetUploading (id_key uf)) (take j new)"
      by (simp add: us Suc take_map)
    then have q: "flush (take n us) (files s) =
        map (\<lambda>f. if id_key f \<in> id_key ` set (take j new)
                  then f\<lparr>status := Uploading, progress := 0\<rparr> else f) (files s @ new)"
      by (simp add: flush_SetUploading)
    show ?thesis
    proof (cases "id_key f = id_key (new ! j)")
      case False
      then show ?thesis by (simp add: un)
    next
      case True
      from f have "f \<in> (\<lambda>f. if id_key f \<in> id_key ` set (take j new)
                  then f\<lparr>status := Uploading, progress := 0\<rparr> else f) ` set (files s @ new)"
        unfolding q by (simp only: set_map)
      then obtain f0 where f0: "f0 \<in> set (files s @ new)"
        "f = (if id_key f0 \<in> id_key ` set (take j new)
              then f0\<lparr>status := Uploading, progress := 0\<rparr> else f0)"
        by (rule imageE)
      then have idf0: "id_key f0 = id_key (new ! j)" using True by (auto split: if_splits)
      have "map id_key new ! j \<notin> set (take j (map id_key new))"
        using dnew j by (intro nth_not_in_take) auto
      then have "id_key f0 \<notin> id_key ` set (take j new)"
        using j by (simp add: idf0 take_map)
      then have ff0: "f = f0" using f0(2) by simp
      have "id_key f0 \<in> set (map id_key new)" using j by (auto simp: idf0)
      with disj have "f0 \<notin> set (files s)" by auto
      with f0(1) have "f0 \<in> set new" by simp
      then have "status f0 = Pending"
        unfolding new_def by (auto dest: handleFiles_loop_fresh)
      then show ?thesis using True by (simp add: un ff0 transition_ok_def)
    qed
  qed
qed

text \<open>
  C4, as the code has it. Take a run from the empty queue in which the ids drawn at each
  admission differ from one another, from the ids in the queue and from the ids of the
  requests still pending, and in which Retry is pressed only where the page shows it, on an
  entry whose status is error. Then every updater that an event queues moves every entry of
  the queue it is applied to along the state machine: the status stays, or goes from pending
  to uploading, from uploading to success or error, or from error to uploading. So no entry
  leaves success, none goes from pending to success or error, and uploading is entered from
  pending or error only. The entries that an updater appends are pending.
\<close>

theorem entries_follow_state_machine:
  assumes "run rnd init evs = Some s"
    and "fresh_draws known_ids rnd init (evs @ [ev])"
    and "event_effects rnd s ev = Some (us, rs, d)"
    and "n < length us"
    and "f \<in> set (flush (take n us) (files s))"
  shows "transition_ok (status f) (status (updater_entry (us ! n) f)) \<and>
         (\<forall>new. us ! n = Append new \<longrightarrow> (\<forall>e \<in> set new. status e = Pending))"
proof
  from fresh_draws_last [OF assms(1,2)] have fr: "fresh_draws known_ids rnd init evs"
    and dn: "distinct (new_ids rnd s ev)" and disj: "set (new_ids rnd s ev) \<inter> known_ids s = {}"
    by auto
  have "consistent s"
    using assms(1) fr consistent_init by (rule run_consistent)
  then show "transition_ok (status f) (status (updater_entry (us ! n) f))"
    using assms(3) dn disj assms(4,5) by (rule event_transitions)
  show "\<forall>new. us ! n = Append new \<longrightarrow> (\<forall>e \<in> set new. status e = Pending)"
    using event_effects_Append [OF assms(3)] assms(4) by (metis nth_mem)
qed

theorem entries_follow_state_machine_witness:
  "run rnd_count init [HandleFiles [report_pdf]] =
     Some (the (run rnd_count init [HandleFiles [report_pdf]])) \<and>
   fresh_draws known_ids rnd_count init ([HandleFiles [report_pdf]] @ [Settle 0 http_500]) \<and>
   event_effects rnd_count (the (run rnd_count init [HandleFiles [report_pdf]])) (Settle 0 http_500) =
     Some ([SetError ''0q7mz1x9k'' ''Upload failed: 500 Internal Server Error''], [], 0) \<and>
   \<lparr>file_f = report_pdf, id_key = ''0q7mz1x9k'', status = Uploading, progress = 0, error = None\<rparr>
     \<in> set (files (the (run rnd_count init [HandleFiles [report_pdf]]))) \<and>
   transition_ok Uploading Error"
proof -
  let ?s = "the (run rnd_count init [HandleFiles [report_pdf]])"
  let ?e = "\<lparr>file_f = report_pdf, id_key = ''0q7mz1x9k'', status = Uploading, progress = 0,
             error = None\<rparr>"
  let ?us = "[SetError ''0q7mz1x9k'' ''Upload failed: 500 Internal Server Error'']"
  have r: "run rnd_count init [HandleFiles [report_pdf]] = Some ?s"
    by code_simp
  have fd: "fresh_draws known_ids rnd_count init ([HandleFiles [report_pdf]] @ [Settle 0 http_500])"
    by code_simp
  have ev: "event_effects rnd_count ?s (Settle 0 http_500) = Some (?us, [], 0)"
    by code_simp
  have n: "0 < length ?us" by simp
  have fs: "files ?s = [?e]" by code_simp
  then have f: "?e \<in> set (flush (take 0 ?us) (files ?s))" by simp
  from entries_follow_state_machine [OF r fd ev n f] have "transition_ok Uploading Error"
    by simp
  with r fd ev fs show ?thesis by simp
qed

theorem success_left_when_ids_collide:
  "map_option files (run rnd_same init [HandleFiles [report_pdf], Settle 0 http_200]) =
     Some [\<lparr>file_f = report_pdf, id_key = ''4fzyo82mv'', status = Success, progress = 100,
            error = None\<rparr>] \<and>
   map_option files
     (run rnd_same init [HandleFiles [report_pdf], Settle 0 http_200, HandleFiles [data_csv]]) =
     Some [\<lparr>file_f = report_pdf, id_key = ''4fzyo82mv'', status = Uploading, progress = 0,
            error = None\<rparr>,
           \<lparr>file_f = data_csv, id_key = ''4fzyo82mv'', status = Uploading, progress = 0,
            error = None\<rparr>] \<and>
   \<not> transition_ok Success Uploading"
proof (intro conjI)
  show "map_option files (run rnd_same init [HandleFiles [report_pdf], Settle 0 http_200]) =
     Some [\<lparr>file_f = report_pdf, id_key = ''4fzyo82mv'', status = Success, progress = 100,
            error = None\<rparr>]"
    by code_simp
  show "map_option files
     (run rnd_same init [HandleFiles [report_pdf], Settle 0 http_200, HandleFiles [data_csv]]) =
     Some [\<lparr>file_f = report_pdf, id_key = ''4fzyo82mv'', status = Uploading, progress = 0,
            error = None\<rparr>,
           \<lparr>file_f = data_csv, id_key = ''4fzyo82mv'', status = Uploading, progress = 0,
            error = None\<rparr>]"
    by code_simp
  show "\<not> transition_ok Success Uploading"
    by (simp add: transition_ok_def)
qed

section \<open>Rounding to a double\<close>

lemma nearest_even_error:
  assumes "0 < b"
  shows "\<bar>real (nearest_even a b) - real a / real b\<bar> \<le> 1 / 2"
proof -
  define q r where "q = a div b" and "r = a mod b"
  have a: "real a = real b * real q + real r"
    unfolding q_def r_def by (metis of_nat_add of_nat_mult mult_div_mod_eq)
  have rb: "r < b" unfolding r_def using assms by simp
  have quo: "real a / real b = real q + real r / real b"
    using assms by (simp add: a field_simps)
  consider "2 * r < b" | "b < 2 * r" | "2 * r = b" by linarith
  then show ?thesis
  proof cases
    case 1
    then have "nearest_even a b = q" by (simp add: nearest_even_def q_def r_def Let_def)
    moreover have "real r / real b < 1 / 2" using 1 assms by (simp add: field_simps)
    ultimately show ?thesis by (simp add: quo)
  next
    case 2
    then have "nearest_even a b = Suc q" by (simp add: nearest_even_def q_def r_def Let_def)
    moreover have "1 / 2 < real r / real b" using 2 assms by (simp add: field_simps)
    moreover have "real r / real b < 1" using rb assms by simp
    ultimately show ?thesis by (simp add: quo)
  next
    case 3
    then have "nearest_even a b = q \<or> nearest_even a b = Suc q"
      by (simp add: nearest_even_def q_def r_def Let_def)
    moreover have "real b = 2 * real r" using 3 by (metis of_nat_mult of_nat_numeral)
    then have "real r / real b = 1 / 2" using assms by simp
    then have "real a / real b = real q + 1 / 2" by (simp only: quo)
    ultimately show ?thesis by (elim disjE) simp_all
  qed
qed

lemma binade_post:
  "k0 \<le> 1074 \<Longrightarrow>
     k0 \<le> binade a b k0 \<and> binade a b k0 \<le> 1074 \<and>
     (2 ^ 52 * b \<le> a * 2 ^ binade a b k0 \<or> binade a b k0 = 1074)"
proof (induction a b k0 rule: binade.induct)
  case (1 a b k)
  show ?case
  proof (cases "1074 \<le> k \<or> 2 ^ 52 * b \<le> a * 2 ^ k")
    case True
    then have "binade a b k = k" by (simp add: binade.simps)
    with True "1.prems" show ?thesis by auto
  next
    case False
    then have eq: "binade a b k = binade a b (Suc k)" by (subst binade.simps) simp
    from False have "Suc k \<le> 1074" by simp
    with "1.IH" False show ?thesis unfolding eq by auto
  qed
qed

lemma to_double_error:
  assumes "0 < b" and "to_double a b = (m, k)"
  shows "\<bar>real m / 2 ^ k - real a / real b\<bar> \<le> 1 / 2 ^ Suc k"
    and "k \<le> 1074" and "2 ^ 52 * b \<le> a * 2 ^ k \<or> k = 1074"
proof -
  from assms(2) have k: "k = binade a b 0" and m: "m = nearest_even (a * 2 ^ k) b"
    by (auto simp: to_double_def Let_def)
  from binade_post [of 0 a b] show "k \<le> 1074" "2 ^ 52 * b \<le> a * 2 ^ k \<or> k = 1074"
    by (auto simp: k)
  have "\<bar>real m - real (a * 2 ^ k) / real b\<bar> \<le> 1 / 2"
    unfolding m using assms(1) by (rule nearest_even_error)
  then have "\<bar>real m - real (a * 2 ^ k) / real b\<bar> / 2 ^ k \<le> (1 / 2) / 2 ^ k"
    by (rule divide_right_mono) simp
  moreover have "\<bar>real m - real (a * 2 ^ k) / real b\<bar> / 2 ^ k =
      \<bar>real m / 2 ^ k - real a / real b\<bar>"
  proof -
    have "\<bar>real m - real (a * 2 ^ k) / real b\<bar> / 2 ^ k =
        \<bar>(real m - real (a * 2 ^ k) / real b) / 2 ^ k\<bar>"
      by simp
    also have "(real m - real (a * 2 ^ k) / real b) / 2 ^ k = real m / 2 ^ k - real a / real b"
      by (simp add: field_simps)
    finally show ?thesis .
  qed
  ultimately show "\<bar>real m / 2 ^ k - real a / real b\<bar> \<le> 1 / 2 ^ Suc k"
    by simp
qed

lemma Math_round_floor: "Math_round (m, k) = nat \<lfloor>real m / 2 ^ k + 1 / 2\<rfloor>"
proof -
  have "real m / 2 ^ k + 1 / 2 = real (2 * m + 2 ^ k) / real (2 ^ Suc k)"
    by (simp add: field_simps)
  also have "\<lfloor>\<dots>\<rfloor> = int ((2 * m + 2 ^ k) div 2 ^ Suc k)"
    by (simp only: floor_divide_of_nat_eq)
  finally show ?thesis by (simp add: Math_round_def)
qed

lemma double_div_nat: "double_div (double_of_nat s) (double_of_nat t) = to_double s t"
  by (simp add: double_div_def double_of_nat_def)

lemma double_mul_100: "double_mul (m, k) (double_of_nat 100) = to_double (m * 100) (2 ^ k)"
  by (simp add: double_mul_def double_of_nat_def)

lemma quotient_double_close:
  assumes t: "0 < t" and st: "s \<le> t" and d: "to_double s t = (m, k)"
  shows "\<bar>real m / 2 ^ k - real s / real t\<bar> \<le> 1 / 2 ^ 53" and "52 \<le> k"
proof -
  note e = to_double_error [OF t d]
  show k: "52 \<le> k"
  proof (rule disjE [OF e(3)])
    assume "2 ^ 52 * t \<le> s * 2 ^ k"
    also have "s * 2 ^ k \<le> t * 2 ^ k" using st by simp
    finally have "(2::nat) ^ 52 \<le> 2 ^ k" using t by simp
    then show ?thesis by (rule power_le_imp_le_exp [rotated]) simp
  next
    assume "k = 1074"
    then show ?thesis by simp
  qed
  have "(2::real) ^ 53 \<le> 2 ^ Suc k"
    using k by (intro power_increasing) auto
  then have "1 / (2::real) ^ Suc k \<le> 1 / 2 ^ 53"
    by (intro divide_left_mono) auto
  with e(1) show "\<bar>real m / 2 ^ k - real s / real t\<bar> \<le> 1 / 2 ^ 53"
    by linarith
qed

lemma product_double_close:
  assumes d1: "\<bar>real m / 2 ^ k - x\<bar> \<le> 1 / 2 ^ 53" and x: "0 \<le> x" "x \<le> 1"
    and d: "to_double (m * 100) (2 ^ k) = (m', k')"
  shows "\<bar>real m' / 2 ^ k' - 100 * x\<bar> < 1 / 2 ^ 45"
proof -
  define dv where "dv = real m / 2 ^ k"
  have pos: "(0::nat) < 2 ^ k" by simp
  note e = to_double_error [OF pos d]
  have quo: "real (m * 100) / real (2 ^ k) = 100 * dv"
    by (simp add: dv_def)
  have dv_le: "dv \<le> 1 + 1 / 2 ^ 53"
    using d1 x unfolding dv_def by linarith
  have k': "46 \<le> k'"
  proof (rule disjE [OF e(3)])
    assume "2 ^ 52 * 2 ^ k \<le> m * 100 * 2 ^ k'"
    then have "real (2 ^ 52 * 2 ^ k) \<le> real (m * 100 * 2 ^ k')"
      by (simp only: of_nat_le_iff)
    then have "2 ^ 52 * 2 ^ k \<le> real m * 100 * 2 ^ k'" by simp
    then have "2 ^ 52 \<le> (real m * 100 * 2 ^ k') / 2 ^ k"
      by (simp add: field_simps)
    also have "\<dots> = 100 * dv * 2 ^ k'" by (simp add: dv_def)
    also have "\<dots> \<le> 100 * (1 + 1 / 2 ^ 53) * 2 ^ k'"
      using dv_le by (intro mult_right_mono mult_left_mono) auto
    also have "\<dots> < 2 ^ 7 * 2 ^ k'"
      by (intro mult_strict_right_mono) auto
    also have "\<dots> = 2 ^ (7 + k')" by (simp add: power_add)
    finally have "(2::real) ^ 52 < 2 ^ (7 + k')" .
    then have "52 < 7 + k'" by (simp only: power_strict_increasing_iff one_less_numeral_iff semiring_norm)
    then show ?thesis by simp
  next
    assume "k' = 1074"
    then show ?thesis by simp
  qed
  have "(2::real) ^ 47 \<le> 2 ^ Suc k'"
    using k' by (intro power_increasing) auto
  then have "1 / (2::real) ^ Suc k' \<le> 1 / 2 ^ 47"
    by (intro divide_left_mono) auto
  with e(1) have 1: "\<bar>real m' / 2 ^ k' - 100 * dv\<bar> \<le> 1 / 2 ^ 47"
    unfolding quo by linarith
  have d1': "\<bar>dv - x\<bar> \<le> 1 / 2 ^ 53"
    using d1 by (simp only: dv_def)
  have 2: "\<bar>100 * dv - 100 * x\<bar> \<le> 100 / 2 ^ 53"
    using d1' by linarith
  have "\<bar>real m' / 2 ^ k' - 100 * x\<bar> \<le> 1 / 2 ^ 47 + 100 / 2 ^ 53"
    using 1 2 by linarith
  also have "\<dots> < 1 / 2 ^ 45" by simp
  finally show ?thesis .
qed

lemma floor_near_fraction:
  fixes y' :: real
  assumes t: "0 < t" "t \<le> 2 ^ 44" and close: "\<bar>y' - real n / real (2 * t)\<bar> < 1 / 2 ^ 45"
  shows "\<lfloor>y'\<rfloor> = int (n div (2 * t)) \<or>
         (n mod (2 * t) = 0 \<and> \<lfloor>y'\<rfloor> = int (n div (2 * t)) - 1)"
proof -
  define E r where "E = n div (2 * t)" and "r = n mod (2 * t)"
  define eps :: real where "eps = 1 / 2 ^ 45"
  define y where "y = real n / real (2 * t)"
  have n: "real n = real (2 * t) * real E + real r"
    unfolding E_def r_def by (metis of_nat_add of_nat_mult mult_div_mod_eq)
  have r: "r < 2 * t" unfolding r_def using t by simp
  have y: "y = real E + real r / real (2 * t)"
    unfolding y_def using t by (simp add: n field_simps)
  have "real t \<le> 2 ^ 44" using t(2) by (metis of_nat_le_iff of_nat_numeral of_nat_power)
  then have "real (2 * t) \<le> 2 ^ 45" by simp
  then have eps: "eps \<le> 1 / real (2 * t)"
    unfolding eps_def using t by (intro divide_left_mono) auto
  have eps1: "eps < 1" by (simp add: eps_def)
  from close have cl: "\<bar>y' - y\<bar> < eps" by (simp only: eps_def y_def)
  show ?thesis
  proof (cases "r = 0")
    case True
    have "y = real E" unfolding y True by simp
    with cl eps1 have "real E - 1 < y'" "y' < real E + 1"
      by linarith+
    then have "real_of_int (int E - 1) \<le> y' \<and> y' < real_of_int (int E - 1) + 1 \<or>
               real_of_int (int E) \<le> y' \<and> y' < real_of_int (int E) + 1"
      by (cases "real E \<le> y'") auto
    then have "\<lfloor>y'\<rfloor> = int E - 1 \<or> \<lfloor>y'\<rfloor> = int E"
      by (auto intro: floor_unique)
    with True show ?thesis unfolding E_def r_def by auto
  next
    case False
    then have "1 \<le> real r" by simp
    then have lo: "1 / real (2 * t) \<le> real r / real (2 * t)"
      using t by (intro divide_right_mono) auto
    have "real r \<le> real (2 * t) - 1" using r by (simp add: of_nat_diff)
    then have "real r / real (2 * t) \<le> (real (2 * t) - 1) / real (2 * t)"
      using t by (intro divide_right_mono) auto
    also have "\<dots> = 1 - 1 / real (2 * t)" using t by (simp add: field_simps)
    finally have hi: "real r / real (2 * t) \<le> 1 - 1 / real (2 * t)" .
    from cl lo hi eps have "real E \<le> y'" "y' < real E + 1"
      unfolding y by linarith+
    then have "\<lfloor>y'\<rfloor> = int E"
      by (intro floor_unique) auto
    then show ?thesis unfolding E_def by simp
  qed
qed

lemma exact_percent_div:
  assumes "0 < t"
  shows "exact_percent s t = (200 * s + t) div (2 * t)"
proof -
  have "real s / real t * 100 + 1 / 2 = real (200 * s + t) / real (2 * t)"
    using assms by (simp add: field_simps)
  then have "round (real s / real t * 100) = \<lfloor>real (200 * s + t) / real (2 * t)\<rfloor>"
    by (simp only: round_def)
  also have "\<dots> = int ((200 * s + t) div (2 * t))"
    by (simp only: floor_divide_of_nat_eq)
  finally show ?thesis by (simp add: exact_percent_def)
qed

lemma percent_near_exact:
  assumes t: "0 < t" "t \<le> 2 ^ 44" and st: "s \<le> t"
  defines "p \<equiv> Math_round (double_mul (double_div (double_of_nat s) (double_of_nat t))
                                     (double_of_nat 100))"
  shows "p = exact_percent s t \<or>
         (p + 1 = exact_percent s t \<and> (200 * s + t) mod (2 * t) = 0)"
proof -
  obtain m k where d: "to_double s t = (m, k)" by (cases "to_double s t")
  obtain m' k' where d': "to_double (m * 100) (2 ^ k) = (m', k')"
    by (cases "to_double (m * 100) (2 ^ k)")
  have p: "p = nat \<lfloor>real m' / 2 ^ k' + 1 / 2\<rfloor>"
    by (simp only: p_def double_div_nat d double_mul_100 d' Math_round_floor)
  have x: "0 \<le> real s / real t" "real s / real t \<le> 1"
    using t st by simp_all
  have "\<bar>real m' / 2 ^ k' - 100 * (real s / real t)\<bar> < 1 / 2 ^ 45"
    using quotient_double_close(1) [OF t(1) st d] x d' by (rule product_double_close)
  moreover have "100 * (real s / real t) + 1 / 2 = real (200 * s + t) / real (2 * t)"
    using t by (simp add: field_simps)
  ultimately have "\<bar>(real m' / 2 ^ k' + 1 / 2) - real (200 * s + t) / real (2 * t)\<bar> < 1 / 2 ^ 45"
    by (metis (no_types, opaque_lifting) add_diff_add diff_self add.right_neutral)
  from floor_near_fraction [OF t this]
  have fl: "\<lfloor>real m' / 2 ^ k' + 1 / 2\<rfloor> = int ((200 * s + t) div (2 * t)) \<or>
      ((200 * s + t) mod (2 * t) = 0 \<and>
       \<lfloor>real m' / 2 ^ k' + 1 / 2\<rfloor> = int ((200 * s + t) div (2 * t)) - 1)" .
  have E: "exact_percent s t = (200 * s + t) div (2 * t)"
    using t(1) by (rule exact_percent_div)
  from fl show ?thesis
  proof
    assume "\<lfloor>real m' / 2 ^ k' + 1 / 2\<rfloor> = int ((200 * s + t) div (2 * t))"
    then show ?thesis by (simp add: p E)
  next
    assume tie: "(200 * s + t) mod (2 * t) = 0 \<and>
       \<lfloor>real m' / 2 ^ k' + 1 / 2\<rfloor> = int ((200 * s + t) div (2 * t)) - 1"
    then have "2 * t dvd 200 * s + t" by (simp add: dvd_eq_mod_eq_0)
    then have "2 * t \<le> 200 * s + t" using t(1) by (intro dvd_imp_le) auto
    then have "1 \<le> (200 * s + t) div (2 * t)"
      using t(1) by (simp add: Suc_le_eq div_greater_zero_iff)
    with tie show ?thesis by (simp add: p E nat_diff_distrib)
  qed
qed

lemma binade_unfold:
  "binade a b k = (if 1074 \<le> k \<or> 2 ^ 52 * b \<le> a * 2 ^ k then k else binade a b (k + 1))"
  by (subst binade.simps) simp

section \<open>The summary\<close>

lemma succeeded_sample_queue: "summary_succeeded (sample_queue a b) = a"
  by (simp add: summary_succeeded_def sample_queue_def filter_map o_def sample_entry_def)

lemma total_sample_queue: "summary_total (sample_queue a b) = a + b"
  by (simp add: summary_total_def sample_queue_def)

lemma percentComplete_eq:
  "0 < summary_total fs \<Longrightarrow> percentComplete fs =
     Some (Math_round (double_mul (to_double (summary_succeeded fs) (summary_total fs))
                                  (double_of_nat 100)))"
  by (simp add: percentComplete_def summary_succeeded_def summary_total_def double_div_nat)

lemma percent_2_of_3:
  "Math_round (double_mul (to_double 2 3) (double_of_nat 100)) = 67"
proof -
  have 1: "to_double 2 3 = (6004799503160661, 53)"
    by (simp add: to_double_def binade_unfold nearest_even_def Let_def)
  have 2: "to_double (6004799503160661 * 100) (2 ^ 53) = (4691249611844266, 46)"
    by (simp add: to_double_def binade_unfold nearest_even_def Let_def)
  have 3: "Math_round (4691249611844266, 46) = 67"
    by (simp add: Math_round_def)
  show ?thesis by (simp only: 1 double_mul_100 2 3)
qed

lemma percent_23_of_40:
  "Math_round (double_mul (to_double 23 40) (double_of_nat 100)) = 57"
proof -
  have 1: "to_double 23 40 = (5179139571476070, 53)"
    by (simp add: to_double_def binade_unfold nearest_even_def Let_def)
  have 2: "to_double (5179139571476070 * 100) (2 ^ 53) = (8092405580431359, 47)"
    by (simp add: to_double_def binade_unfold nearest_even_def Let_def)
  have 3: "Math_round (8092405580431359, 47) = 57"
    by (simp add: Math_round_def)
  show ?thesis by (simp only: 1 double_mul_100 2 3)
qed

text \<open>
  C7, as the code has it. The summary's count of successes is the number of entries whose
  status is success, and its total is the length of the queue. For an empty queue no
  percentage is computed. For a non-empty queue (of at most \<open>2 ^ 44\<close> entries, which every
  JavaScript array satisfies) the percentage is \<^verbatim>\<open>Math.round\<close> of the double-precision
  product \<^verbatim>\<open>(succeeded / total) * 100\<close>: it is the exactly rounded percentage, except that
  when the exact percentage lies precisely halfway between two integers it may be the lower
  of the two.
\<close>

theorem summary_counts_and_percentage:
  "summary_succeeded fs = card {i. i < length fs \<and> status (fs ! i) = Success} \<and>
   summary_total fs = length fs \<and>
   (summary_total fs = 0 \<longrightarrow> percentComplete fs = None) \<and>
   (0 < summary_total fs \<and> summary_total fs \<le> 2 ^ 44 \<longrightarrow>
      (\<exists>p. percentComplete fs = Some p \<and>
           (p = exact_percent (summary_succeeded fs) (summary_total fs) \<or>
            p + 1 = exact_percent (summary_succeeded fs) (summary_total fs) \<and>
            (200 * summary_succeeded fs + summary_total fs) mod (2 * summary_total fs) = 0)))"
proof (intro conjI impI)
  show "summary_succeeded fs = card {i. i < length fs \<and> status (fs ! i) = Success}"
    unfolding summary_succeeded_def by (rule length_filter_conv_card)
  show "summary_total fs = length fs" by (simp add: summary_total_def)
  show "percentComplete fs = None" if "summary_total fs = 0"
    using that by (simp add: percentComplete_def summary_total_def)
  show "\<exists>p. percentComplete fs = Some p \<and>
           (p = exact_percent (summary_succeeded fs) (summary_total fs) \<or>
            p + 1 = exact_percent (summary_succeeded fs) (summary_total fs) \<and>
            (200 * summary_succeeded fs + summary_total fs) mod (2 * summary_total fs) = 0)"
    if "0 < summary_total fs \<and> summary_total fs \<le> 2 ^ 44"
  proof -
    from that have t: "0 < summary_total fs" "summary_total fs \<le> 2 ^ 44" by auto
    have st: "summary_succeeded fs \<le> summary_total fs"
      by (simp add: summary_succeeded_def summary_total_def)
    define p where "p = Math_round (double_mul (double_div (double_of_nat (summary_succeeded fs))
                                                 (double_of_nat (summary_total fs)))
                                     (double_of_nat 100))"
    have pc: "percentComplete fs = Some p"
      unfolding p_def double_div_nat using t(1) by (rule percentComplete_eq)
    have near: "p = exact_percent (summary_succeeded fs) (summary_total fs) \<or>
            p + 1 = exact_percent (summary_succeeded fs) (summary_total fs) \<and>
            (200 * summary_succeeded fs + summary_total fs) mod (2 * summary_total fs) = 0"
      unfolding p_def using t st by (rule percent_near_exact)
    from pc near show ?thesis by (intro exI [of _ p] conjI)
  qed
qed

theorem summary_counts_and_percentage_witness:
  "0 < summary_total (sample_queue 2 1) \<and> summary_total (sample_queue 2 1) \<le> 2 ^ 44 \<and>
   summary_succeeded (sample_queue 2 1) = 2 \<and> summary_total (sample_queue 2 1) = 3 \<and>
   percentComplete (sample_queue 2 1) = Some 67 \<and> exact_percent 2 3 = 67 \<and>
   summary_total [] = 0 \<and> percentComplete [] = None"
proof -
  let ?Q = "sample_queue 2 1"
  have s: "summary_succeeded ?Q = 2" by (rule succeeded_sample_queue)
  have t: "summary_total ?Q = 3" unfolding total_sample_queue by simp
  have h: "0 < summary_total ?Q \<and> summary_total ?Q \<le> 2 ^ 44"
    unfolding t by simp
  have e: "exact_percent 2 3 = 67" by (simp add: exact_percent_div)
  have z: "summary_total [] = 0" by (simp add: summary_total_def)
  from summary_counts_and_percentage [of "[]"] z have n: "percentComplete [] = None"
    by blast
  note c4 = summary_counts_and_percentage [of ?Q, THEN conjunct2, THEN conjunct2, THEN conjunct2]
  from mp [OF c4 h] obtain q where
    q12: "percentComplete ?Q = Some q \<and>
        (q = exact_percent (summary_succeeded ?Q) (summary_total ?Q) \<or>
         q + 1 = exact_percent (summary_succeeded ?Q) (summary_total ?Q) \<and>
         (200 * summary_succeeded ?Q + summary_total ?Q) mod (2 * summary_total ?Q) = 0)" ..
  from q12 have q1: "percentComplete ?Q = Some q" by (rule conjunct1)
  from q12 have "q = 67 \<or> q + 1 = 67 \<and> (200 * 2 + 3) mod (2 * 3) = (0::nat)"
    unfolding s t e by (rule conjunct2)
  then have "q = 67" by simp
  with q1 have p: "percentComplete ?Q = Some 67" by (simp only:)
  note facts = conjunct1 [OF h] conjunct2 [OF h] s t p e z n
  show ?thesis by (intro conjI) (rule facts)+
qed

theorem percentage_below_exact_at_tie:
  "summary_succeeded (sample_queue 23 17) = 23 \<and> summary_total (sample_queue 23 17) = 40 \<and>
   percentComplete (sample_queue 23 17) = Some 57 \<and> exact_percent 23 40 = 58"
proof (intro conjI)
  show s: "summary_succeeded (sample_queue 23 17) = 23" by (rule succeeded_sample_queue)
  show t: "summary_total (sample_queue 23 17) = 40" unfolding total_sample_queue by simp
  have "0 < summary_total (sample_queue 23 17)" unfolding t by simp
  then show "percentComplete (sample_queue 23 17) = Some 57"
    by (simp only: percentComplete_eq s t percent_23_of_40)
  show "exact_percent 23 40 = 58" by (simp add: exact_percent_div)
qed

section \<open>The error message\<close>








section \<open>Validation without regard to case\<close>

lemma toLowerCase_char_t:
  "toLowerCase_char c = CHR ''t'' \<longleftrightarrow> c = CHR ''t'' \<or> c = CHR ''T''"
  by (auto simp: toLowerCase_char_def upper_letters_def lower_letters_def split: if_splits)

lemma toLowerCase_char_x:
  "toLowerCase_char c = CHR ''x'' \<longleftrightarrow> c = CHR ''x'' \<or> c = CHR ''X''"
  by (auto simp: toLowerCase_char_def upper_letters_def lower_letters_def split: if_splits)

lemma toLowerCase_char_p:
  "toLowerCase_char c = CHR ''p'' \<longleftrightarrow> c = CHR ''p'' \<or> c = CHR ''P''"
  by (auto simp: toLowerCase_char_def upper_letters_def lower_letters_def split: if_splits)

lemma toLowerCase_char_d:
  "toLowerCase_char c = CHR ''d'' \<longleftrightarrow> c = CHR ''d'' \<or> c = CHR ''D''"
  by (auto simp: toLowerCase_char_def upper_letters_def lower_letters_def split: if_splits)

lemma toLowerCase_char_f:
  "toLowerCase_char c = CHR ''f'' \<longleftrightarrow> c = CHR ''f'' \<or> c = CHR ''F''"
  by (auto simp: toLowerCase_char_def upper_letters_def lower_letters_def split: if_splits)

lemma toLowerCase_char_c:
  "toLowerCase_char c = CHR ''c'' \<longleftrightarrow> c = CHR ''c'' \<or> c = CHR ''C''"
  by (auto simp: toLowerCase_char_def upper_letters_def lower_letters_def split: if_splits)

lemma toLowerCase_char_s:
  "toLowerCase_char c = CHR ''s'' \<longleftrightarrow> c = CHR ''s'' \<or> c = CHR ''S''"
  by (auto simp: toLowerCase_char_def upper_letters_def lower_letters_def split: if_splits)

lemma toLowerCase_char_v:
  "toLowerCase_char c = CHR ''v'' \<longleftrightarrow> c = CHR ''v'' \<or> c = CHR ''V''"
  by (auto simp: toLowerCase_char_def upper_letters_def lower_letters_def split: if_splits)

lemma toLowerCase_char_dot: "toLowerCase_char c = CHR ''.'' \<longleftrightarrow> c = CHR ''.''"
  by (auto simp: toLowerCase_char_def upper_letters_def lower_letters_def split: if_splits)

lemma toLowerCase_txt: "toLowerCase s = ''txt'' \<longleftrightarrow> s \<in> set spellings_txt"
proof
  assume "toLowerCase s = ''txt''"
  then obtain a b c where s: "s = [a, b, c]"
    and abc: "toLowerCase_char a = CHR ''t''" "toLowerCase_char b = CHR ''x''"
      "toLowerCase_char c = CHR ''t''"
    unfolding toLowerCase_def by (auto simp: map_eq_Cons_conv)
  from abc have "a = CHR ''t'' \<or> a = CHR ''T''" "b = CHR ''x'' \<or> b = CHR ''X''"
    "c = CHR ''t'' \<or> c = CHR ''T''"
    by (simp_all only: toLowerCase_char_t toLowerCase_char_x toLowerCase_char_t)
  then show "s \<in> set spellings_txt"
    unfolding s spellings_txt_def by (elim disjE) simp_all
next
  assume "s \<in> set spellings_txt"
  then show "toLowerCase s = ''txt''"
    unfolding spellings_txt_def toLowerCase_def
    by (auto simp: toLowerCase_char_t toLowerCase_char_x toLowerCase_char_t)
qed

lemma toLowerCase_pdf: "toLowerCase s = ''pdf'' \<longleftrightarrow> s \<in> set spellings_pdf"
proof
  assume "toLowerCase s = ''pdf''"
  then obtain a b c where s: "s = [a, b, c]"
    and abc: "toLowerCase_char a = CHR ''p''" "toLowerCase_char b = CHR ''d''"
      "toLowerCase_char c = CHR ''f''"
    unfolding toLowerCase_def by (auto simp: map_eq_Cons_conv)
  from abc have "a = CHR ''p'' \<or> a = CHR ''P''" "b = CHR ''d'' \<or> b = CHR ''D''"
    "c = CHR ''f'' \<or> c = CHR ''F''"
    by (simp_all only: toLowerCase_char_p toLowerCase_char_d toLowerCase_char_f)
  then show "s \<in> set spellings_pdf"
    unfolding s spellings_pdf_def by (elim disjE) simp_all
next
  assume "s \<in> set spellings_pdf"
  then show "toLowerCase s = ''pdf''"
    unfolding spellings_pdf_def toLowerCase_def
    by (auto simp: toLowerCase_char_p toLowerCase_char_d toLowerCase_char_f)
qed

lemma toLowerCase_csv: "toLowerCase s = ''csv'' \<longleftrightarrow> s \<in> set spellings_csv"
proof
  assume "toLowerCase s = ''csv''"
  then obtain a b c where s: "s = [a, b, c]"
    and abc: "toLowerCase_char a = CHR ''c''" "toLowerCase_char b = CHR ''s''"
      "toLowerCase_char c = CHR ''v''"
    unfolding toLowerCase_def by (auto simp: map_eq_Cons_conv)
  from abc have "a = CHR ''c'' \<or> a = CHR ''C''" "b = CHR ''s'' \<or> b = CHR ''S''"
    "c = CHR ''v'' \<or> c = CHR ''V''"
    by (simp_all only: toLowerCase_char_c toLowerCase_char_s toLowerCase_char_v)
  then show "s \<in> set spellings_csv"
    unfolding s spellings_csv_def by (elim disjE) simp_all
next
  assume "s \<in> set spellings_csv"
  then show "toLowerCase s = ''csv''"
    unfolding spellings_csv_def toLowerCase_def
    by (auto simp: toLowerCase_char_c toLowerCase_char_s toLowerCase_char_v)
qed

lemma extension_in_allowed:
  "extension f \<in> set allowedExtensions \<longleftrightarrow> after_last_dot (name f) \<in> extension_spellings"
proof -
  have "extension f \<in> set allowedExtensions \<longleftrightarrow>
      toLowerCase (after_last_dot (name f)) = ''txt'' \<or>
      toLowerCase (after_last_dot (name f)) = ''pdf'' \<or>
      toLowerCase (after_last_dot (name f)) = ''csv''"
    by (simp add: extension_eq allowedExtensions_def)
  then show ?thesis
    by (simp only: toLowerCase_txt toLowerCase_pdf toLowerCase_csv extension_spellings_def
        set_append Un_iff)
qed

lemma validateFile_rule: "validateFile f = admitted_by_rule f"
  by (simp only: validateFile_def admitted_by_rule_def extension_in_allowed)
     (simp add: allowedTypes_def media_allow_set_def)

text \<open>
  C10. For a file whose name has no dot, the extension that validation computes is a dot
  followed by the whole name in lower case, so the file is accepted exactly when its whole
  name is one of the spellings of txt, pdf and csv in upper and lower case, or its declared
  media type is in the allow-set. For every name, the empty one included, \<^verbatim>\<open>pop()\<close> finds
  a piece, so validation returns a truth value and nothing is thrown; the empty name is
  accepted exactly on its media type.
\<close>

theorem validateFile_dotless_name:
  "pop (split_on CHR ''.'' (name f)) \<noteq> None \<and>
   (CHR ''.'' \<notin> set (name f) \<longrightarrow>
      extension f = ''.'' @ toLowerCase (name f) \<and>
      (extension f \<in> {''.txt'', ''.pdf'', ''.csv''} \<longleftrightarrow> name f \<in> extension_spellings) \<and>
      (validateFile f \<longleftrightarrow> name f \<in> extension_spellings \<or> type f \<in> media_allow_set)) \<and>
   (name f = [] \<longrightarrow> extension f = ''.'' \<and> (validateFile f \<longleftrightarrow> type f \<in> media_allow_set))"
proof (intro conjI impI)
  show "pop (split_on CHR ''.'' (name f)) \<noteq> None"
    by (simp add: pop_split_on)
next
  assume nd: "CHR ''.'' \<notin> set (name f)"
  then show "extension f = ''.'' @ toLowerCase (name f)"
    by (simp add: extension_eq after_last_dot_dotless)
  show "extension f \<in> {''.txt'', ''.pdf'', ''.csv''} \<longleftrightarrow> name f \<in> extension_spellings"
    using extension_in_allowed [of f] nd
    by (simp add: allowedExtensions_def after_last_dot_dotless)
  show "validateFile f \<longleftrightarrow> name f \<in> extension_spellings \<or> type f \<in> media_allow_set"
    using nd by (auto simp: validateFile_rule admitted_by_rule_def after_last_dot_dotless)
next
  assume e: "name f = []"
  then show "extension f = ''.''"
    by (simp add: extension_eq after_last_dot_def toLowerCase_def)
  have "after_last_dot (name f) \<notin> extension_spellings"
    by (simp add: e after_last_dot_def extension_spellings_def spellings_txt_def
        spellings_pdf_def spellings_csv_def)
  then show "validateFile f \<longleftrightarrow> type f \<in> media_allow_set"
    by (simp add: validateFile_rule admitted_by_rule_def)
qed

theorem validateFile_dotless_name_witness:
  "CHR ''.'' \<notin> set (name \<lparr>name = ''TXT'', type = [], size_f = 7\<rparr>) \<and>
   extension \<lparr>name = ''TXT'', type = [], size_f = 7\<rparr> = ''.txt'' \<and>
   validateFile \<lparr>name = ''TXT'', type = [], size_f = 7\<rparr> \<and>
   extension \<lparr>name = ''Csv'', type = [], size_f = 7\<rparr> = ''.csv'' \<and>
   validateFile \<lparr>name = ''Csv'', type = [], size_f = 7\<rparr> \<and>
   validateFile \<lparr>name = ''pDf'', type = [], size_f = 7\<rparr> \<and>
   \<not> validateFile \<lparr>name = ''exe'', type = [], size_f = 7\<rparr> \<and>
   validateFile \<lparr>name = ''exe'', type = ''text/csv'', size_f = 7\<rparr> \<and>
   validateFile \<lparr>name = ''README'', type = ''application/vnd.ms-excel'', size_f = 7\<rparr> \<and>
   \<not> validateFile \<lparr>name = ''README'', type = ''image/png'', size_f = 7\<rparr> \<and>
   \<not> validateFile \<lparr>name = [], type = [], size_f = 0\<rparr> \<and>
   validateFile \<lparr>name = [], type = ''text/plain'', size_f = 0\<rparr>"
  using validateFile_dotless_name [of "\<lparr>name = ''TXT'', type = [], size_f = 7\<rparr>"]
    validateFile_dotless_name [of "\<lparr>name = ''Csv'', type = [], size_f = 7\<rparr>"]
    validateFile_dotless_name [of "\<lparr>name = ''pDf'', type = [], size_f = 7\<rparr>"]
    validateFile_dotless_name [of "\<lparr>name = ''exe'', type = [], size_f = 7\<rparr>"]
    validateFile_dotless_name [of "\<lparr>name = ''exe'', type = ''text/csv'', size_f = 7\<rparr>"]
    validateFile_dotless_name [of "\<lparr>name = ''README'', type = ''application/vnd.ms-excel'', size_f = 7\<rparr>"]
    validateFile_dotless_name [of "\<lparr>name = ''README'', type = ''image/png'', size_f = 7\<rparr>"]
    validateFile_dotless_name [of "\<lparr>name = [], type = [], size_f = 0\<rparr>"]
    validateFile_dotless_name [of "\<lparr>name = [], type = ''text/plain'', size_f = 0\<rparr>"]
  by (simp add: toLowerCase_def toLowerCase_char_def upper_letters_def lower_letters_def
      media_allow_set_def extension_spellings_def spellings_txt_def spellings_pdf_def
      spellings_csv_def)

text \<open>
  C3, as the code has it. Admission keeps exactly the files whose declared media type is in
  the allow-set or whose name ends, after its last dot, in one of the spellings of txt, pdf
  and csv in upper and lower case, the whole name standing for that ending when the name has
  no dot. They are kept in the order of the input; each becomes an entry with status
  pending, progress 0 and no error message; the first updater that \<^verbatim>\<open>handleFiles\<close> queues
  appends these entries to the queue; the event is always enabled, and after it the queue
  holds the files it held, followed by the admitted ones.
\<close>

theorem handleFiles_admits_by_rule:
  "map file_f (handleFiles_loop rnd k fileList) = filter admitted_by_rule fileList \<and>
   (\<forall>e \<in> set (handleFiles_loop rnd k fileList).
      status e = Pending \<and> progress e = 0 \<and> error e = None) \<and>
   hd (fst (handleFiles rnd k fileList)) = Append (handleFiles_loop rnd k fileList) \<and>
   apply_updater (Append (handleFiles_loop rnd k fileList)) prev =
     prev @ handleFiles_loop rnd k fileList \<and>
   (\<exists>s'. step rnd s (HandleFiles fileList) = Some s' \<and>
      map file_f (files s') = map file_f (files s) @ filter admitted_by_rule fileList)"
proof -
  have eq: "validateFile = admitted_by_rule"
    by (rule ext) (rule validateFile_rule)
  have m: "map file_f (handleFiles_loop rnd k fileList) = filter admitted_by_rule fileList" for k
    by (simp add: handleFiles_loop_files eq)
  have fresh: "\<forall>e \<in> set (handleFiles_loop rnd k fileList).
      status e = Pending \<and> progress e = 0 \<and> error e = None"
    by (blast dest: handleFiles_loop_fresh)
  have first: "hd (fst (handleFiles rnd k fileList)) = Append (handleFiles_loop rnd k fileList)"
    by (simp add: handleFiles_updaters)
  have app: "apply_updater (Append (handleFiles_loop rnd k fileList)) prev =
     prev @ handleFiles_loop rnd k fileList"
    by simp
  have "step rnd s (HandleFiles fileList) \<noteq> None"
    by (cases "handleFiles rnd (rng_pos s) fileList") (auto simp: step_def)
  then obtain s' where st: "step rnd s (HandleFiles fileList) = Some s'" by blast
  have "map file_f (files s') = map file_f (files s) @ filter admitted_by_rule fileList"
    using step_HandleFiles [OF st] by (simp add: flush_SetUploading_files m)
  with st have "step rnd s (HandleFiles fileList) = Some s' \<and>
      map file_f (files s') = map file_f (files s) @ filter admitted_by_rule fileList" ..
  then have ex: "\<exists>s'. step rnd s (HandleFiles fileList) = Some s' \<and>
      map file_f (files s') = map file_f (files s) @ filter admitted_by_rule fileList"
    by (rule exI)
  note facts = m [of k] fresh first app ex
  show ?thesis by (intro conjI) (rule facts)+
qed

theorem handleFiles_admits_by_rule_witness:
  "handleFiles_loop rnd_same 0
     [\<lparr>name = ''Report.v2.PdF'', type = [], size_f = 10\<rparr>,
      \<lparr>name = ''setup.exe'', type = ''application/x-msdownload'', size_f = 20\<rparr>,
      \<lparr>name = ''sheet.xls'', type = ''application/vnd.ms-excel'', size_f = 30\<rparr>,
      \<lparr>name = ''data.csv.bak'', type = [], size_f = 40\<rparr>] =
   [\<lparr>file_f = \<lparr>name = ''Report.v2.PdF'', type = [], size_f = 10\<rparr>, id_key = ''4fzyo82mv'',
     status = Pending, progress = 0, error = None\<rparr>,
    \<lparr>file_f = \<lparr>name = ''sheet.xls'', type = ''application/vnd.ms-excel'', size_f = 30\<rparr>,
     id_key = ''4fzyo82mv'', status = Pending, progress = 0, error = None\<rparr>] \<and>
   filter admitted_by_rule
     [\<lparr>name = ''Report.v2.PdF'', type = [], size_f = 10\<rparr>,
      \<lparr>name = ''setup.exe'', type = ''application/x-msdownload'', size_f = 20\<rparr>,
      \<lparr>name = ''sheet.xls'', type = ''application/vnd.ms-excel'', size_f = 30\<rparr>,
      \<lparr>name = ''data.csv.bak'', type = [], size_f = 40\<rparr>] =
   [\<lparr>name = ''Report.v2.PdF'', type = [], size_f = 10\<rparr>,
    \<lparr>name = ''sheet.xls'', type = ''application/vnd.ms-excel'', size_f = 30\<rparr>]"
proof -
  let ?fl = "[\<lparr>name = ''Report.v2.PdF'', type = [], size_f = 10\<rparr>,
      \<lparr>name = ''setup.exe'', type = ''application/x-msdownload'', size_f = 20\<rparr>,
      \<lparr>name = ''sheet.xls'', type = ''application/vnd.ms-excel'', size_f = 30\<rparr>,
      \<lparr>name = ''data.csv.bak'', type = [], size_f = 40\<rparr>]"
  have l: "handleFiles_loop rnd_same 0 ?fl =
   [\<lparr>file_f = \<lparr>name = ''Report.v2.PdF'', type = [], size_f = 10\<rparr>, id_key = ''4fzyo82mv'',
     status = Pending, progress = 0, error = None\<rparr>,
    \<lparr>file_f = \<lparr>name = ''sheet.xls'', type = ''application/vnd.ms-excel'', size_f = 30\<rparr>,
     id_key = ''4fzyo82mv'', status = Pending, progress = 0, error = None\<rparr>]"
    by code_simp
  from handleFiles_admits_by_rule [of rnd_same 0 ?fl "[]" init, THEN conjunct1]
  have "filter admitted_by_rule ?fl = map file_f (handleFiles_loop rnd_same 0 ?fl)"
    by (rule sym)
  then have "filter admitted_by_rule ?fl =
   [\<lparr>name = ''Report.v2.PdF'', type = [], size_f = 10\<rparr>,
    \<lparr>name = ''sheet.xls'', type = ''application/vnd.ms-excel'', size_f = 30\<rparr>]"
    unfolding l by simp
  with l show ?thesis by (intro conjI)
qed

theorem handleFiles_admits_dotless_name:
  "\<not> admitted_as_stated \<lparr>name = ''pdf'', type = [], size_f = 5\<rparr> \<and>
   handleFiles_loop rnd_same 0 [\<lparr>name = ''pdf'', type = [], size_f = 5\<rparr>] =
     [\<lparr>file_f = \<lparr>name = ''pdf'', type = [], size_f = 5\<rparr>, id_key = ''4fzyo82mv'',
       status = Pending, progress = 0, error = None\<rparr>]"
proof
  show "\<not> admitted_as_stated \<lparr>name = ''pdf'', type = [], size_f = 5\<rparr>"
    by (simp add: admitted_as_stated_def media_allow_set_def)
  show "handleFiles_loop rnd_same 0 [\<lparr>name = ''pdf'', type = [], size_f = 5\<rparr>] =
     [\<lparr>file_f = \<lparr>name = ''pdf'', type = [], size_f = 5\<rparr>, id_key = ''4fzyo82mv'',
       status = Pending, progress = 0, error = None\<rparr>]"
    by code_simp
qed

section \<open>How an upload ends\<close>

lemma SetError_marked_failed: "apply_updater (SetError i msg) q = marked_failed i msg q"
  by (induction q) (auto simp: marked_failed_def)

lemma step_Settle_enabled:
  "k < length (inflight s) \<Longrightarrow>
     step rnd s (Settle k oc) =
       Some \<lparr>files = apply_updater (uploadFile_settled (req_entry (inflight s ! k)) oc) (files s),
             rng_pos = rng_pos s,
             inflight = take k (inflight s) @ drop (Suc k) (inflight s)\<rparr>"
  by (simp add: step_def flush_def)

lemma step_Settle_failed:
  assumes "k < length (inflight s)" and "uploadFile_settled (req_entry (inflight s ! k)) oc = SetError (req_entry (inflight s ! k)) msg"
  shows "step rnd s (Settle k oc) =
       Some \<lparr>files = marked_failed (req_entry (inflight s ! k)) msg (files s),
             rng_pos = rng_pos s,
             inflight = take k (inflight s) @ drop (Suc k) (inflight s)\<rparr>"
  using step_Settle_enabled [OF assms(1), of rnd oc]
  by (simp only: assms(2) SetError_marked_failed)

text \<open>
  C6. The ending of a pending request is always processed.
  When the \<open>k\<close>-th pending request is answered with a status code outside 200-299, every
  entry with the request's id gets the status error, progress 0 and the message
  \<^verbatim>\<open>Upload failed: <code> <status text>\<close>; when the fetch, or the reading of the body of a
  2xx answer, throws an \<^verbatim>\<open>Error\<close>, the message is that error's message, and when the
  thrown value is not an \<^verbatim>\<open>Error\<close> it is \<^verbatim>\<open>Upload failed\<close>. In each case the other
  entries stay as they were, no random number is drawn and no request is sent: the pending
  requests are the earlier ones without the one that ended.
\<close>

theorem failed_upload_sets_error:
  assumes "k < length (inflight s)"
  shows "(code < 200 \<or> 299 < code \<longrightarrow>
      step rnd s (Settle k (Responded code statusText body)) =
        Some \<lparr>files = marked_failed (req_entry (inflight s ! k))
                        (''Upload failed: '' @ string_of_nat code @ '' '' @ statusText) (files s),
              rng_pos = rng_pos s,
              inflight = take k (inflight s) @ drop (Suc k) (inflight s)\<rparr>) \<and>
   step rnd s (Settle k (Rejected (ErrorObject message))) =
     Some \<lparr>files = marked_failed (req_entry (inflight s ! k)) message (files s),
           rng_pos = rng_pos s,
           inflight = take k (inflight s) @ drop (Suc k) (inflight s)\<rparr> \<and>
   step rnd s (Settle k (Rejected NotAnError)) =
     Some \<lparr>files = marked_failed (req_entry (inflight s ! k)) ''Upload failed'' (files s),
           rng_pos = rng_pos s,
           inflight = take k (inflight s) @ drop (Suc k) (inflight s)\<rparr> \<and>
   (200 \<le> code \<and> code \<le> 299 \<longrightarrow>
      step rnd s (Settle k (Responded code statusText (BodyThrows (ErrorObject message)))) =
        Some \<lparr>files = marked_failed (req_entry (inflight s ! k)) message (files s),
              rng_pos = rng_pos s,
              inflight = take k (inflight s) @ drop (Suc k) (inflight s)\<rparr> \<and>
      step rnd s (Settle k (Responded code statusText (BodyThrows NotAnError))) =
        Some \<lparr>files = marked_failed (req_entry (inflight s ! k)) ''Upload failed'' (files s),
              rng_pos = rng_pos s,
              inflight = take k (inflight s) @ drop (Suc k) (inflight s)\<rparr>)"
proof (intro conjI impI)
  assume "code < 200 \<or> 299 < code"
  then have "uploadFile_settled (req_entry (inflight s ! k)) (Responded code statusText body) =
      SetError (req_entry (inflight s ! k))
        (''Upload failed: '' @ string_of_nat code @ '' '' @ statusText)"
    by (auto simp: uploadFile_settled_def uploadFile_try_def response_ok_def)
  with assms show "step rnd s (Settle k (Responded code statusText body)) =
        Some \<lparr>files = marked_failed (req_entry (inflight s ! k))
                        (''Upload failed: '' @ string_of_nat code @ '' '' @ statusText) (files s),
              rng_pos = rng_pos s,
              inflight = take k (inflight s) @ drop (Suc k) (inflight s)\<rparr>"
    by (rule step_Settle_failed)
next
  have "uploadFile_settled (req_entry (inflight s ! k)) (Rejected (ErrorObject message)) =
      SetError (req_entry (inflight s ! k)) message"
    by (simp add: uploadFile_settled_def uploadFile_try_def)
  with assms show "step rnd s (Settle k (Rejected (ErrorObject message))) =
     Some \<lparr>files = marked_failed (req_entry (inflight s ! k)) message (files s),
           rng_pos = rng_pos s,
           inflight = take k (inflight s) @ drop (Suc k) (inflight s)\<rparr>"
    by (rule step_Settle_failed)
next
  have "uploadFile_settled (req_entry (inflight s ! k)) (Rejected NotAnError) =
      SetError (req_entry (inflight s ! k)) ''Upload failed''"
    by (simp add: uploadFile_settled_def uploadFile_try_def)
  with assms show "step rnd s (Settle k (Rejected NotAnError)) =
     Some \<lparr>files = marked_failed (req_entry (inflight s ! k)) ''Upload failed'' (files s),
           rng_pos = rng_pos s,
           inflight = take k (inflight s) @ drop (Suc k) (inflight s)\<rparr>"
    by (rule step_Settle_failed)
next
  assume "200 \<le> code \<and> code \<le> 299"
  then have "uploadFile_settled (req_entry (inflight s ! k))
        (Responded code statusText (BodyThrows (ErrorObject message))) =
      SetError (req_entry (inflight s ! k)) message"
    by (simp add: uploadFile_settled_def uploadFile_try_def response_ok_def)
  with assms show "step rnd s (Settle k (Responded code statusText (BodyThrows (ErrorObject message)))) =
        Some \<lparr>files = marked_failed (req_entry (inflight s ! k)) message (files s),
              rng_pos = rng_pos s,
              inflight = take k (inflight s) @ drop (Suc k) (inflight s)\<rparr>"
    by (rule step_Settle_failed)
next
  assume "200 \<le> code \<and> code \<le> 299"
  then have "uploadFile_settled (req_entry (inflight s ! k))
        (Responded code statusText (BodyThrows NotAnError)) =
      SetError (req_entry (inflight s ! k)) ''Upload failed''"
    by (simp add: uploadFile_settled_def uploadFile_try_def response_ok_def)
  with assms show "step rnd s (Settle k (Responded code statusText (BodyThrows NotAnError))) =
        Some \<lparr>files = marked_failed (req_entry (inflight s ! k)) ''Upload failed'' (files s),
              rng_pos = rng_pos s,
              inflight = take k (inflight s) @ drop (Suc k) (inflight s)\<rparr>"
    by (rule step_Settle_failed)
qed

theorem failed_upload_sets_error_witness:
  "run rnd_same init [HandleFiles [report_pdf], Settle 0 http_500] =
     Some \<lparr>files = [\<lparr>file_f = report_pdf, id_key = ''4fzyo82mv'', status = Error, progress = 0,
                      error = Some ''Upload failed: 500 Internal Server Error''\<rparr>],
           rng_pos = 2, inflight = []\<rparr> \<and>
   run rnd_same init [HandleFiles [report_pdf], Settle 0 (Rejected (ErrorObject ''Failed to fetch''))] =
     Some \<lparr>files = [\<lparr>file_f = report_pdf, id_key = ''4fzyo82mv'', status = Error, progress = 0,
                      error = Some ''Failed to fetch''\<rparr>],
           rng_pos = 2, inflight = []\<rparr> \<and>
   run rnd_same init [HandleFiles [report_pdf], Settle 0 (Rejected NotAnError)] =
     Some \<lparr>files = [\<lparr>file_f = report_pdf, id_key = ''4fzyo82mv'', status = Error, progress = 0,
                      error = Some ''Upload failed''\<rparr>],
           rng_pos = 2, inflight = []\<rparr>"
proof -
  let ?s = "the (run rnd_same init [HandleFiles [report_pdf]])"
  have r: "step rnd_same init (HandleFiles [report_pdf]) = Some ?s"
    by code_simp
  have k: "0 < length (inflight ?s)" by code_simp
  have i: "req_entry (inflight ?s ! 0) = ''4fzyo82mv''" by code_simp
  have p: "rng_pos ?s = 2" by code_simp
  have rest: "take 0 (inflight ?s) @ drop (Suc 0) (inflight ?s) = []" by code_simp
  have m: "marked_failed ''4fzyo82mv'' msg (files ?s) =
      [\<lparr>file_f = report_pdf, id_key = ''4fzyo82mv'', status = Error, progress = 0,
        error = Some msg\<rparr>]" for msg
  proof -
    have "files ?s = [\<lparr>file_f = report_pdf, id_key = ''4fzyo82mv'', status = Uploading,
        progress = 0, error = None\<rparr>]"
      by code_simp
    then show ?thesis by (simp add: marked_failed_def)
  qed
  have c: "(299::nat) < 500" by simp
  note t = failed_upload_sets_error [OF k, of 500 rnd_same "''Internal Server Error''" "BodyText []"
      "''Failed to fetch''", unfolded i p rest m]
  from t [THEN conjunct1] c have 1: "step rnd_same ?s (Settle 0 http_500) =
     Some \<lparr>files = [\<lparr>file_f = report_pdf, id_key = ''4fzyo82mv'', status = Error, progress = 0,
                      error = Some ''Upload failed: 500 Internal Server Error''\<rparr>],
           rng_pos = 2, inflight = []\<rparr>"
    by (simp add: http_500_def string_of_nat.simps digit_chars_def)
  from t [THEN conjunct2, THEN conjunct1] have 2: "step rnd_same ?s (Settle 0 (Rejected (ErrorObject ''Failed to fetch''))) =
     Some \<lparr>files = [\<lparr>file_f = report_pdf, id_key = ''4fzyo82mv'', status = Error, progress = 0,
                      error = Some ''Failed to fetch''\<rparr>],
           rng_pos = 2, inflight = []\<rparr>"
    .
  from t [THEN conjunct2, THEN conjunct2, THEN conjunct1] have 3: "step rnd_same ?s (Settle 0 (Rejected NotAnError)) =
     Some \<lparr>files = [\<lparr>file_f = report_pdf, id_key = ''4fzyo82mv'', status = Error, progress = 0,
                      error = Some ''Upload failed''\<rparr>],
           rng_pos = 2, inflight = []\<rparr>"
    .
  have run2: "run rnd_same init [HandleFiles [report_pdf], ev] = step rnd_same ?s ev" for ev
    using r by (simp split: option.splits del: step_def)
  show ?thesis
    by (intro conjI) (rule trans [OF run2 1] trans [OF run2 2] trans [OF run2 3])+
qed

section \<open>The draws behind ids and userIds\<close>

lemma uploadFile_each_length: "length (uploadFile_each rnd k ufs) = length ufs"
  by (induction ufs arbitrary: k) auto

lemma uploadFile_each_requests_upt:
  "map snd (uploadFile_each rnd k ufs) =
     map (\<lambda>j. snd (uploadFile rnd (k + j) (ufs ! j))) [0..<length ufs]"
  by (rule nth_equalityI) (simp_all add: uploadFile_each_length uploadFile_each_nth)

lemma handleFiles_loop_ids:
  "map id_key (handleFiles_loop rnd k fileList) =
     map (\<lambda>j. substr 2 9 (rnd (k + j))) [0..<length (handleFiles_loop rnd k fileList)]"
proof (induction fileList arbitrary: k)
  case Nil
  then show ?case by simp
next
  case (Cons f fileList)
  show ?case
  proof (cases "validateFile f")
    case True
    then show ?thesis
      using Cons.IH [of "Suc k"] by (simp add: map_upt_Suc del: upt_Suc)
  next
    case False
    then show ?thesis using Cons.IH [of k] by simp
  qed
qed

lemma step_HandleFiles_eq:
  "step rnd s (HandleFiles fileList) =
     Some \<lparr>files = map (\<lambda>f. if id_key f \<in> id_key ` set (handleFiles_loop rnd (rng_pos s) fileList)
                             then f\<lparr>status := Uploading, progress := 0\<rparr> else f)
                        (files s @ handleFiles_loop rnd (rng_pos s) fileList),
           rng_pos = rng_pos s + 2 * length (handleFiles_loop rnd (rng_pos s) fileList),
           inflight = inflight s @
             map (\<lambda>j. snd (uploadFile rnd
                             (rng_pos s + length (handleFiles_loop rnd (rng_pos s) fileList) + j)
                             (handleFiles_loop rnd (rng_pos s) fileList ! j)))
                 [0..<length (handleFiles_loop rnd (rng_pos s) fileList)]\<rparr>"
  by (simp add: step_def handleFiles_def Let_def uploadFile_each_updaters flush_SetUploading
      uploadFile_each_requests_upt)

lemma step_RetryUpload_eq:
  "n < length (files s) \<Longrightarrow> status (files s ! n) = Error \<Longrightarrow>
   step rnd s (RetryUpload n) =
     Some \<lparr>files = map (\<lambda>f. if id_key f = id_key (files s ! n)
                             then f\<lparr>status := Uploading, progress := 0\<rparr> else f) (files s),
           rng_pos = Suc (rng_pos s),
           inflight = inflight s @ [snd (uploadFile rnd (rng_pos s) (files s ! n))]\<rparr>"
  by (simp add: step_def retryUpload_def uploadFile_def Let_def)

text \<open>
  C2, as the code has it. The \<^verbatim>\<open>userId\<close> of a request is USR followed by the characters
  3 to 11 of a random draw's base-36 text, in upper case: at most nine characters, each a
  digit or an uppercase letter, and exactly nine when the text has at least nine digits
  after \<^verbatim>\<open>0.\<close>. Every call of \<^verbatim>\<open>uploadFile\<close> uses a draw of its own. An admission that
  creates \<open>n\<close> entries when \<open>p\<close> draws have been made takes the ids from the draws \<open>p\<close> to
  \<open>p + n - 1\<close> and the userIds of its \<open>n\<close> requests from the draws \<open>p + n\<close> to
  \<open>p + 2n - 1\<close>, and leaves the count of draws at \<open>p + 2n\<close>; Retry takes the userId of its
  request from draw \<open>p\<close> and leaves the count at \<open>p + 1\<close>; removing an entry and the ending
  of a request draw nothing. The entries after an admission or a retry are the earlier ones
  with status and progress changed: the identifier goes into the request only.
\<close>

theorem uploadFile_userId_uppercase:
  assumes "base36_text (rnd k)"
  shows "userId (req_body (snd (uploadFile rnd k uf))) =
           ''USR'' @ toUpperCase (substr 2 9 (rnd k)) \<and>
         length (toUpperCase (substr 2 9 (rnd k))) \<le> 9 \<and>
         (11 \<le> length (rnd k) \<longrightarrow> length (toUpperCase (substr 2 9 (rnd k))) = 9) \<and>
         list_all upper_alnum (toUpperCase (substr 2 9 (rnd k))) \<and>
         fst (uploadFile rnd k uf) = SetUploading (id_key uf) \<and>
         (let new = handleFiles_loop rnd (rng_pos s) fileList; n = length new
          in map id_key new = map (\<lambda>j. substr 2 9 (rnd (rng_pos s + j))) [0..<n] \<and>
             step rnd s (HandleFiles fileList) =
               Some \<lparr>files = map (\<lambda>f. if id_key f \<in> id_key ` set new
                                       then f\<lparr>status := Uploading, progress := 0\<rparr> else f)
                                  (files s @ new),
                     rng_pos = rng_pos s + 2 * n,
                     inflight = inflight s @
                       map (\<lambda>j. snd (uploadFile rnd (rng_pos s + n + j) (new ! j))) [0..<n]\<rparr>) \<and>
         (m < length (files s) \<and> status (files s ! m) = Error \<longrightarrow>
            step rnd s (RetryUpload m) =
              Some \<lparr>files = map (\<lambda>f. if id_key f = id_key (files s ! m)
                                      then f\<lparr>status := Uploading, progress := 0\<rparr> else f)
                                 (files s),
                    rng_pos = Suc (rng_pos s),
                    inflight = inflight s @ [snd (uploadFile rnd (rng_pos s) (files s ! m))]\<rparr>) \<and>
         step rnd s (RemoveFile i) =
           Some \<lparr>files = filter (\<lambda>f. id_key f \<noteq> i) (files s), rng_pos = rng_pos s,
                 inflight = inflight s\<rparr> \<and>
         (\<forall>s'. step rnd s (Settle j oc) = Some s' \<longrightarrow> rng_pos s' = rng_pos s)"
proof -
  have 1: "userId (req_body (snd (uploadFile rnd k uf))) = ''USR'' @ toUpperCase (substr 2 9 (rnd k))"
    by (simp add: uploadFile_def)
  have 2: "length (toUpperCase (substr 2 9 (rnd k))) \<le> 9"
    by (simp add: toUpperCase_def substr_def)
  have 3: "11 \<le> length (rnd k) \<longrightarrow> length (toUpperCase (substr 2 9 (rnd k))) = 9"
    by (simp add: toUpperCase_def substr_def)
  have 4: "list_all upper_alnum (toUpperCase (substr 2 9 (rnd k)))"
    using assms by (intro toUpperCase_alnum base36_text_digits)
  have 5: "fst (uploadFile rnd k uf) = SetUploading (id_key uf)"
    by (simp add: uploadFile_def)
  have 6: "let new = handleFiles_loop rnd (rng_pos s) fileList; n = length new
          in map id_key new = map (\<lambda>j. substr 2 9 (rnd (rng_pos s + j))) [0..<n] \<and>
             step rnd s (HandleFiles fileList) =
               Some \<lparr>files = map (\<lambda>f. if id_key f \<in> id_key ` set new
                                       then f\<lparr>status := Uploading, progress := 0\<rparr> else f)
                                  (files s @ new),
                     rng_pos = rng_pos s + 2 * n,
                     inflight = inflight s @
                       map (\<lambda>j. snd (uploadFile rnd (rng_pos s + n + j) (new ! j))) [0..<n]\<rparr>"
    unfolding Let_def
    using handleFiles_loop_ids [of rnd "rng_pos s" fileList] step_HandleFiles_eq [of rnd s fileList]
    by (rule conjI)
  have 7: "m < length (files s) \<and> status (files s ! m) = Error \<longrightarrow>
            step rnd s (RetryUpload m) =
              Some \<lparr>files = map (\<lambda>f. if id_key f = id_key (files s ! m)
                                      then f\<lparr>status := Uploading, progress := 0\<rparr> else f)
                                 (files s),
                    rng_pos = Suc (rng_pos s),
                    inflight = inflight s @ [snd (uploadFile rnd (rng_pos s) (files s ! m))]\<rparr>"
    by (blast intro: step_RetryUpload_eq)
  have 8: "step rnd s (RemoveFile i) =
           Some \<lparr>files = filter (\<lambda>f. id_key f \<noteq> i) (files s), rng_pos = rng_pos s,
                 inflight = inflight s\<rparr>"
    by (simp add: step_def removeFile_def)
  have 9: "\<forall>s'. step rnd s (Settle j oc) = Some s' \<longrightarrow> rng_pos s' = rng_pos s"
    by (blast dest: step_Settle)
  note facts = 1 2 3 4 5 6 7 8 9
  show ?thesis by (intro conjI) (rule facts)+
qed

theorem uploadFile_userId_uppercase_witness:
  "base36_text (rnd_count 1) \<and>
   run rnd_count init [HandleFiles [report_pdf]] =
     Some \<lparr>files = [\<lparr>file_f = report_pdf, id_key = ''0q7mz1x9k'', status = Uploading,
                      progress = 0, error = None\<rparr>],
           rng_pos = 2,
           inflight = [\<lparr>req_entry = ''0q7mz1x9k'',
                        req_body = \<lparr>data = report_pdf, filename = ''report.pdf'',
                                    filesize = ''1234'', filetype = ''application/pdf'',
                                    userId = ''USR1Q7MZ1X9K''\<rparr>\<rparr>]\<rparr> \<and>
   map_option inflight (run rnd_count init [HandleFiles [report_pdf], Settle 0 http_500, RetryUpload 0]) =
     Some [\<lparr>req_entry = ''0q7mz1x9k'',
            req_body = \<lparr>data = report_pdf, filename = ''report.pdf'',
                        filesize = ''1234'', filetype = ''application/pdf'',
                        userId = ''USR2Q7MZ1X9K''\<rparr>\<rparr>]"
proof -
  have b: "base36_text (rnd_count 1)"
    by (simp add: base36_text_def rnd_count_def lower_alnum_def string_of_nat.simps digit_chars_def)
  have new: "handleFiles_loop rnd_count (rng_pos init) [report_pdf] =
      [\<lparr>file_f = report_pdf, id_key = ''0q7mz1x9k'', status = Pending, progress = 0,
        error = None\<rparr>]"
    by code_simp
  have u: "snd (uploadFile rnd_count (Suc 0) \<lparr>file_f = report_pdf, id_key = ''0q7mz1x9k'',
        status = Pending, progress = 0, error = None\<rparr>) =
      \<lparr>req_entry = ''0q7mz1x9k'',
       req_body = \<lparr>data = report_pdf, filename = ''report.pdf'', filesize = ''1234'',
                   filetype = ''application/pdf'', userId = ''USR1Q7MZ1X9K''\<rparr>\<rparr>"
    by code_simp
  note t = uploadFile_userId_uppercase [where rnd = rnd_count and k = 1 and s = init
      and fileList = "[report_pdf]", OF b,
      THEN conjunct2, THEN conjunct2, THEN conjunct2, THEN conjunct2, THEN conjunct2,
      THEN conjunct1, unfolded Let_def new, THEN conjunct2]
  have 1: "run rnd_count init [HandleFiles [report_pdf]] =
     Some \<lparr>files = [\<lparr>file_f = report_pdf, id_key = ''0q7mz1x9k'', status = Uploading,
                      progress = 0, error = None\<rparr>],
           rng_pos = 2,
           inflight = [\<lparr>req_entry = ''0q7mz1x9k'',
                        req_body = \<lparr>data = report_pdf, filename = ''report.pdf'',
                                    filesize = ''1234'', filetype = ''application/pdf'',
                                    userId = ''USR1Q7MZ1X9K''\<rparr>\<rparr>]\<rparr>"
    using t by (simp add: init_def u)
  have 2: "map_option inflight
      (run rnd_count init [HandleFiles [report_pdf], Settle 0 http_500, RetryUpload 0]) =
     Some [\<lparr>req_entry = ''0q7mz1x9k'',
            req_body = \<lparr>data = report_pdf, filename = ''report.pdf'',
                        filesize = ''1234'', filetype = ''application/pdf'',
                        userId = ''USR2Q7MZ1X9K''\<rparr>\<rparr>]"
    by code_simp
  from b 1 2 show ?thesis by (intro conjI)
qed

end
